theory Spec2Isabelle
  imports Main "HOL-Library.Word" "HOL-Library.Signed_Division" "HOL-Library.Multiset"
    "HOL-Library.Sublist"
begin

unbundle bit_operations_syntax

section \<open>Data model\<close>

text \<open>
  A span stub as \<open>printer.go\<close> reads it: its name, its own span context and the one of
  its parent (each a trace identifier of 16 bytes and a span identifier of 8 bytes), its
  start and end time and its attributes. An identifier is the list of its bytes; a
  \<open>time.Time\<close> is the instant it denotes, in nanoseconds (locations and monotonic clock
  readings aside), so \<open>Before\<close> is \<open><\<close> on instants.
\<close>

datatype attr_value =
    INVALID
  | BOOL bool
  | INT64 "64 word"
  | FLOAT64 "64 word"
  | STRING string
  | BOOLSLICE "bool list"
  | INT64SLICE "64 word list"
  | FLOAT64SLICE "64 word list"
  | STRINGSLICE "string list"

record KeyValue =
  Key :: string
  Value :: attr_value

record span_context =
  TraceID :: "8 word list"
  SpanID :: "8 word list"

record SpanStub =
  Name :: string
  SpanContext :: span_context
  Parent :: span_context
  StartTime :: int
  EndTime :: int
  Attributes :: "KeyValue list"

text \<open>\<open>hex.EncodeToString\<close>: two digits of \<open>hextable\<close> for every byte.\<close>

definition hextable :: string where
  "hextable = ''0123456789abcdef''"

definition EncodeToString :: "8 word list \<Rightarrow> string" where
  "EncodeToString src =
     concat (map (\<lambda>v. [hextable ! unat (drop_bit 4 v), hextable ! unat (v AND 0x0f)]) src)"

definition SpanID_String :: "8 word list \<Rightarrow> string" where
  "SpanID_String s = EncodeToString s"

definition TraceID_String :: "8 word list \<Rightarrow> string" where
  "TraceID_String t = EncodeToString t"

definition nilSpanID :: "8 word list" where
  "nilSpanID = [0, 0, 0, 0, 0, 0, 0, 0]"

definition SpanID_IsValid :: "8 word list \<Rightarrow> bool" where
  "SpanID_IsValid s = (s \<noteq> nilSpanID)"

definition Time_Before :: "int \<Rightarrow> int \<Rightarrow> bool" where
  "Time_Before t u = (t < u)"

text \<open>\<open>Time.Sub\<close> saturates at the ends of the 64-bit range of a \<open>Duration\<close>.\<close>

definition Time_Sub :: "int \<Rightarrow> int \<Rightarrow> int" where
  "Time_Sub t u = max (- (2 ^ 63)) (min (2 ^ 63 - 1) (t - u))"

section \<open>The libraries the printer calls\<close>

text \<open>
  The rendering and formatting functions that \<open>printer.go\<close> calls belong to other
  packages (\<open>lipgloss\<close>, \<open>fmt\<close>, \<open>time\<close>). They are parameters of the model: the three text
  styles and the box style each as their \<open>Render\<close> function, \<open>lipgloss.JoinVertical\<close> at
  the left position, the \<open>%v\<close> form of an attribute value and of a duration, and
  \<open>Time.Format\<close> at the layout \<open>timeFormat\<close>.
\<close>

record backend =
  labelStyle :: "string \<Rightarrow> string"
  valueStyle :: "string \<Rightarrow> string"
  errorHighlightStyle :: "string \<Rightarrow> string"
  boxStyle :: "string \<Rightarrow> string"
  JoinVertical :: "string list \<Rightarrow> string"
  Sprint_value :: "attr_value \<Rightarrow> string"
  Sprint_duration :: "int \<Rightarrow> string"
  Time_Format :: "int \<Rightarrow> string"

text \<open>
  \<open>sort.Slice\<close> is a parameter as well: a function from the order and the slice to the
  slice as it is after the call. The order of both calls is the one below.
\<close>

type_synonym sorter = "(SpanStub \<Rightarrow> SpanStub \<Rightarrow> bool) \<Rightarrow> SpanStub list \<Rightarrow> SpanStub list"

definition byStartTime :: "SpanStub \<Rightarrow> SpanStub \<Rightarrow> bool" where
  "byStartTime x y = Time_Before (StartTime x) (StartTime y)"

section \<open>Helpers of the printer\<close>

definition childIndent :: string where
  "childIndent = ''  ''"

definition newline :: char where
  "newline = CHR 0x0A"

text \<open>\<open>strings.Split(s, "\n")\<close> and \<open>strings.Join(out, "\n")\<close>.\<close>

fun Split_nl :: "string \<Rightarrow> string list" where
  "Split_nl [] = [[]]"
| "Split_nl (c # cs) =
     (if c = newline then [] # Split_nl cs
      else (case Split_nl cs of
              [] \<Rightarrow> [[c]]
            | line # lines \<Rightarrow> (c # line) # lines))"

fun Join_nl :: "string list \<Rightarrow> string" where
  "Join_nl [] = []"
| "Join_nl [l] = l"
| "Join_nl (l # ls) = l @ newline # Join_nl ls"

definition indentAllLines :: "string \<Rightarrow> string \<Rightarrow> string" where
  "indentAllLines s indent = Join_nl (map (\<lambda>line. indent @ line) (Split_nl s))"

definition joinLabelValue :: "backend \<Rightarrow> string \<Rightarrow> string \<Rightarrow> string" where
  "joinLabelValue be label val = labelStyle be label @ ''  '' @ valueStyle be val"

definition formatTime :: "backend \<Rightarrow> int \<Rightarrow> string" where
  "formatTime be t = Time_Format be t"

fun isErrorAttribute :: "string \<Rightarrow> attr_value \<Rightarrow> bool" where
  "isErrorAttribute key val =
     (if key = ''error'' \<or> key = ''error_code'' \<or> key = ''rpc.connect_rpc.error_code''
      then True
      else (case val of
              STRING strVal \<Rightarrow> (if strVal = ''error'' \<or> strVal = ''not_found'' then True else False)
            | _ \<Rightarrow> False))"

section \<open>buildSpanBox\<close>

text \<open>The children map: a missing key reads as the empty slice.\<close>

definition lookup :: "(string \<rightharpoonup> SpanStub list) \<Rightarrow> string \<Rightarrow> SpanStub list" where
  "lookup m k = (case m k of None \<Rightarrow> [] | Some xs \<Rightarrow> xs)"

definition span_key :: "SpanStub \<Rightarrow> string" where
  "span_key s = SpanID_String (SpanID (SpanContext s))"

definition parent_key :: "SpanStub \<Rightarrow> string" where
  "parent_key s = SpanID_String (SpanID (Parent s))"

definition has_parent :: "SpanStub \<Rightarrow> bool" where
  "has_parent s = SpanID_IsValid (SpanID (Parent s))"

text \<open>Step 1 of \<open>buildSpanBox\<close>: the lines of the span's own fields.\<close>

definition field_lines :: "backend \<Rightarrow> SpanStub \<Rightarrow> string list" where
  "field_lines be span =
     (let lines = [];
          lines = lines @ [joinLabelValue be ''Span Name:'' (Name span)];
          lines = lines @ [joinLabelValue be ''TraceID:'' (TraceID_String (TraceID (SpanContext span)))];
          lines = lines @ [joinLabelValue be ''SpanID:'' (SpanID_String (SpanID (SpanContext span)))];
          lines = (if SpanID_IsValid (SpanID (Parent span))
                   then lines @ [joinLabelValue be ''ParentSpan:'' (SpanID_String (SpanID (Parent span)))]
                   else lines);
          lines = lines @ [joinLabelValue be ''Start Time:'' (formatTime be (StartTime span))];
          lines = lines @ [joinLabelValue be ''End Time:'' (formatTime be (EndTime span))];
          duration = Time_Sub (EndTime span) (StartTime span);
          lines = lines @ [joinLabelValue be ''Duration:'' (Sprint_duration be duration)]
      in lines)"

text \<open>The bullet sign U+2022 in UTF-8, followed by a space.\<close>

definition bullet_sign :: string where
  "bullet_sign = [CHR 0xE2, CHR 0x80, CHR 0xA2, CHR '' '']"

text \<open>Step 2: the header of the attributes and the loop over them.\<close>

definition bullet_text :: "backend \<Rightarrow> KeyValue \<Rightarrow> string" where
  "bullet_text be attr = bullet_sign @ Key attr @ '' = '' @ Sprint_value be (Value attr)"

fun attribute_loop :: "backend \<Rightarrow> KeyValue list \<Rightarrow> string list \<Rightarrow> string list" where
  "attribute_loop be [] lines = lines"
| "attribute_loop be (attr # attrs) lines =
     (let val = Value attr;
          attrStyle = (if isErrorAttribute (Key attr) val then errorHighlightStyle be
                       else valueStyle be);
          bullet = bullet_text be attr
      in attribute_loop be attrs (lines @ [childIndent @ attrStyle bullet]))"

text \<open>
  Step 3: the loop over the children, around the recursive call \<open>build\<close>. A call that
  does not return (\<open>None\<close>) keeps the loop from returning.
\<close>

fun children_loop ::
  "(SpanStub \<Rightarrow> string option) \<Rightarrow> SpanStub list \<Rightarrow> string list \<Rightarrow> string list option" where
  "children_loop build [] lines = Some lines"
| "children_loop build (child # rest) lines =
     (case build child of
        None \<Rightarrow> None
      | Some childBox \<Rightarrow>
          children_loop build rest (lines @ [indentAllLines childBox childIndent]))"

text \<open>
  \<open>buildSpanBox\<close> recurses as deep as the children map leads it. The first argument
  after the backend bounds the depth of the recursion: \<open>None\<close> is a recursion that goes
  deeper than that.
\<close>

fun buildSpanBox ::
  "backend \<Rightarrow> nat \<Rightarrow> SpanStub \<Rightarrow> (string \<rightharpoonup> SpanStub list) \<Rightarrow> string option" where
  "buildSpanBox be 0 span childrenMap = None"
| "buildSpanBox be (Suc depth) span childrenMap =
     (let lines = field_lines be span;
          lines = lines @ [labelStyle be ''Attributes:''];
          lines = attribute_loop be (Attributes span) lines
      in case children_loop (\<lambda>child. buildSpanBox be depth child childrenMap)
                (lookup childrenMap (span_key span)) lines of
           None \<Rightarrow> None
         | Some lines \<Rightarrow> Some (boxStyle be (JoinVertical be lines)))"

section \<open>PrintSpanTree\<close>

text \<open>The loop that fills the children map, in input order.\<close>

fun group_children ::
  "SpanStub list \<Rightarrow> (string \<rightharpoonup> SpanStub list) \<Rightarrow> (string \<rightharpoonup> SpanStub list)" where
  "group_children [] childrenMap = childrenMap"
| "group_children (s # spans) childrenMap =
     (let parentID = SpanID_String (SpanID (Parent s))
      in if SpanID_IsValid (SpanID (Parent s))
         then group_children spans (childrenMap(parentID \<mapsto> lookup childrenMap parentID @ [s]))
         else group_children spans childrenMap)"

text \<open>
  The loop that sorts every child list. Go ranges over a map in an order of its own
  choosing: \<open>pids\<close> is that order, an enumeration of the keys of the map.
\<close>

fun sort_children ::
  "sorter \<Rightarrow> string list \<Rightarrow> (string \<rightharpoonup> SpanStub list) \<Rightarrow> (string \<rightharpoonup> SpanStub list)" where
  "sort_children srt [] childrenMap = childrenMap"
| "sort_children srt (pid # pids) childrenMap =
     sort_children srt pids (childrenMap(pid \<mapsto> srt byStartTime (lookup childrenMap pid)))"

definition range_order :: "string list \<Rightarrow> (string \<rightharpoonup> SpanStub list) \<Rightarrow> bool" where
  "range_order pids childrenMap = (distinct pids \<and> set pids = dom childrenMap)"

fun find_roots :: "SpanStub list \<Rightarrow> SpanStub list \<Rightarrow> SpanStub list" where
  "find_roots [] roots = roots"
| "find_roots (s # spans) roots =
     (if \<not> SpanID_IsValid (SpanID (Parent s)) then find_roots spans (roots @ [s])
      else find_roots spans roots)"

text \<open>The last loop: \<open>w\<close> is what the writer holds, each block is written with a line break.\<close>

fun print_roots ::
  "backend \<Rightarrow> nat \<Rightarrow> SpanStub list \<Rightarrow> (string \<rightharpoonup> SpanStub list) \<Rightarrow> string \<Rightarrow> string option" where
  "print_roots be depth [] childrenMap w = Some w"
| "print_roots be depth (root # roots) childrenMap w =
     (case buildSpanBox be depth root childrenMap of
        None \<Rightarrow> None
      | Some treeStr \<Rightarrow> print_roots be depth roots childrenMap (w @ treeStr @ [newline]))"

definition children_of :: "sorter \<Rightarrow> string list \<Rightarrow> SpanStub list \<Rightarrow> (string \<rightharpoonup> SpanStub list)" where
  "children_of srt pids spans = sort_children srt pids (group_children spans Map.empty)"

definition roots_of :: "sorter \<Rightarrow> SpanStub list \<Rightarrow> SpanStub list" where
  "roots_of srt spans = srt byStartTime (find_roots spans [])"

text \<open>
  \<open>PrintSpanTree\<close> takes the writer's content \<open>w\<close> and returns it as it is after the
  call. The map \<open>spanByID\<close> of the source is filled and never read; it is left out.
\<close>

definition PrintSpanTree ::
  "sorter \<Rightarrow> backend \<Rightarrow> string list \<Rightarrow> nat \<Rightarrow> string \<Rightarrow> SpanStub list \<Rightarrow> string option" where
  "PrintSpanTree srt be pids depth w spans =
     (if length spans = 0 then Some w
      else let childrenMap = children_of srt pids spans;
               roots = roots_of srt spans
           in print_roots be depth roots childrenMap w)"

section \<open>What the claims speak of\<close>

text \<open>
  The contract of \<open>sort.Slice\<close> as its documentation gives it: the slice holds the same
  elements afterwards, in an order that the given \<open>less\<close> does not contradict. Stability
  is not part of it.
\<close>

definition sort_Slice_contract :: "sorter \<Rightarrow> bool" where
  "sort_Slice_contract srt =
     (\<forall>xs. mset (srt byStartTime xs) = mset xs
         \<and> sorted_wrt (\<lambda>x y. \<not> byStartTime y x) (srt byStartTime xs))"

text \<open>
  A chain of the children map: each span after the first is among the children that the
  map gives for the span before it. The recursion of \<open>buildSpanBox\<close> walks such chains.
\<close>

fun is_chain :: "(string \<rightharpoonup> SpanStub list) \<Rightarrow> SpanStub list \<Rightarrow> bool" where
  "is_chain cm [] = True"
| "is_chain cm [s] = True"
| "is_chain cm (s # t # rest) = (t \<in> set (lookup cm (span_key s)) \<and> is_chain cm (t # rest))"

text \<open>
  The graph of parent identifiers: an edge from the parent identifier of a span to the
  span's own identifier, for every span of the input whose parent identifier is valid.
\<close>

definition parent_edges :: "SpanStub list \<Rightarrow> (string \<times> string) set" where
  "parent_edges spans = set (map (\<lambda>s. (parent_key s, span_key s)) (filter has_parent spans))"

text \<open>
  The spans that can be reached from a root: the spans without a valid parent identifier,
  and the spans whose parent identifier is the identifier of a span already reached.
\<close>

inductive_set reachable :: "SpanStub list \<Rightarrow> SpanStub set" for spans :: "SpanStub list" where
  root: "s \<in> set spans \<Longrightarrow> \<not> has_parent s \<Longrightarrow> s \<in> reachable spans"
| child: "p \<in> reachable spans \<Longrightarrow> c \<in> set spans \<Longrightarrow> has_parent c \<Longrightarrow>
          parent_key c = span_key p \<Longrightarrow> c \<in> reachable spans"

text \<open>
  Line by line containment: the lines of one text are found, in order and one after the
  other, each inside a line of the other text. A backend keeps lines when every entry it
  joins and frames is contained in the result in this way.
\<close>

definition lines_within :: "string list \<Rightarrow> string list \<Rightarrow> bool" where
  "lines_within ls ms =
     (\<exists>k. k + length ls \<le> length ms \<and> (\<forall>i<length ls. sublist (ls ! i) (ms ! (k + i))))"

definition keeps_lines :: "backend \<Rightarrow> bool" where
  "keeps_lines be =
     (\<forall>entries e. e \<in> set entries \<longrightarrow>
        lines_within (Split_nl e) (Split_nl (boxStyle be (JoinVertical be entries))))"





section \<open>\<open>sort.Slice\<close> as the standard library implements it\<close>

text \<open>
  Since Go 1.19 \<open>sort.Slice\<close> is a pattern-defeating quicksort (package \<open>sort\<close>, file
  \<open>zsortfunc.go\<close>): insertion sort on at most 12 elements, heap sort once the limit of
  bad pivots is used up, and otherwise a pivot, a partition and the recursion on the
  smaller side. The functions below follow that file, one definition for every function
  and one for every loop. The slice is a list, \<open>data.Less(i, j)\<close> and \<open>data.Swap(i, j)\<close>
  read and exchange its elements. An index is a natural number; a counter that a loop
  takes below zero is an integer.
\<close>

definition Less :: "('a \<Rightarrow> 'a \<Rightarrow> bool) \<Rightarrow> 'a list \<Rightarrow> nat \<Rightarrow> nat \<Rightarrow> bool" where
  "Less lt data i j = lt (data ! i) (data ! j)"

definition Swap :: "'a list \<Rightarrow> nat \<Rightarrow> nat \<Rightarrow> 'a list" where
  "Swap data i j = data[i := data ! j, j := data ! i]"

function insertionSort_inner ::
  "('a \<Rightarrow> 'a \<Rightarrow> bool) \<Rightarrow> 'a list \<Rightarrow> nat \<Rightarrow> nat \<Rightarrow> 'a list" where
  "insertionSort_inner lt data a j =
     (if j > a \<and> Less lt data j (j - 1)
      then insertionSort_inner lt (Swap data j (j - 1)) a (j - 1)
      else data)"
  by pat_completeness auto
termination
  by (relation "measure (\<lambda>(lt, data, a, j). j)") auto

declare insertionSort_inner.simps [simp del]

function insertionSort_outer ::
  "('a \<Rightarrow> 'a \<Rightarrow> bool) \<Rightarrow> 'a list \<Rightarrow> nat \<Rightarrow> nat \<Rightarrow> nat \<Rightarrow> 'a list" where
  "insertionSort_outer lt data a b i =
     (if i < b then insertionSort_outer lt (insertionSort_inner lt data a i) a b (i + 1)
      else data)"
  by pat_completeness auto
termination
  by (relation "measure (\<lambda>(lt, data, a, b, i). b - i)") auto

declare insertionSort_outer.simps [simp del]

definition insertionSort_func ::
  "('a \<Rightarrow> 'a \<Rightarrow> bool) \<Rightarrow> 'a list \<Rightarrow> nat \<Rightarrow> nat \<Rightarrow> 'a list" where
  "insertionSort_func lt data a b = insertionSort_outer lt data a b (a + 1)"

function siftDown_loop ::
  "('a \<Rightarrow> 'a \<Rightarrow> bool) \<Rightarrow> 'a list \<Rightarrow> nat \<Rightarrow> nat \<Rightarrow> nat \<Rightarrow> 'a list" where
  "siftDown_loop lt data root hi first =
     (let child = 2 * root + 1
      in if child \<ge> hi then data
         else (let child = (if child + 1 < hi \<and> Less lt data (first + child) (first + child + 1)
                            then child + 1 else child)
               in if \<not> Less lt data (first + root) (first + child) then data
                  else siftDown_loop lt (Swap data (first + root) (first + child)) child hi first))"
  by pat_completeness auto
termination
  by (relation "measure (\<lambda>(lt, data, root, hi, first). hi - root)") (auto simp: Let_def)

declare siftDown_loop.simps [simp del]

definition siftDown_func ::
  "('a \<Rightarrow> 'a \<Rightarrow> bool) \<Rightarrow> 'a list \<Rightarrow> nat \<Rightarrow> nat \<Rightarrow> nat \<Rightarrow> 'a list" where
  "siftDown_func lt data lo hi first = siftDown_loop lt data lo hi first"

function heapSort_build ::
  "('a \<Rightarrow> 'a \<Rightarrow> bool) \<Rightarrow> 'a list \<Rightarrow> int \<Rightarrow> nat \<Rightarrow> nat \<Rightarrow> 'a list" where
  "heapSort_build lt data i hi first =
     (if i \<ge> 0 then heapSort_build lt (siftDown_func lt data (nat i) hi first) (i - 1) hi first
      else data)"
  by pat_completeness auto
termination
  by (relation "measure (\<lambda>(lt, data, i, hi, first). nat (i + 1))") auto

declare heapSort_build.simps [simp del]

function heapSort_pop ::
  "('a \<Rightarrow> 'a \<Rightarrow> bool) \<Rightarrow> 'a list \<Rightarrow> int \<Rightarrow> nat \<Rightarrow> nat \<Rightarrow> 'a list" where
  "heapSort_pop lt data i lo first =
     (if i \<ge> 0
      then heapSort_pop lt (siftDown_func lt (Swap data first (first + nat i)) lo (nat i) first)
             (i - 1) lo first
      else data)"
  by pat_completeness auto
termination
  by (relation "measure (\<lambda>(lt, data, i, lo, first). nat (i + 1))") auto

declare heapSort_pop.simps [simp del]

definition heapSort_func ::
  "('a \<Rightarrow> 'a \<Rightarrow> bool) \<Rightarrow> 'a list \<Rightarrow> nat \<Rightarrow> nat \<Rightarrow> 'a list" where
  "heapSort_func lt data a b =
     (let first = a; lo = 0; hi = b - a;
          data = heapSort_build lt data ((int hi - 1) sdiv 2) hi first
      in heapSort_pop lt data (int hi - 1) lo first)"

fun bits_Len :: "nat \<Rightarrow> nat" where
  "bits_Len x = (if x = 0 then 0 else bits_Len (x div 2) + 1)"

definition nextPowerOfTwo :: "nat \<Rightarrow> 64 word" where
  "nextPowerOfTwo len = (let shift = bits_Len len in push_bit shift 1)"

definition xorshift_Next :: "64 word \<Rightarrow> 64 word" where
  "xorshift_Next r =
     (let r = r XOR push_bit 13 r;
          r = r XOR drop_bit 7 r;
          r = r XOR push_bit 17 r
      in r)"

function breakPatterns_loop ::
  "'a list \<Rightarrow> nat \<Rightarrow> nat \<Rightarrow> 64 word \<Rightarrow> nat \<Rightarrow> 64 word \<Rightarrow> nat \<Rightarrow> 'a list" where
  "breakPatterns_loop data a len modulus idx random i =
     (if i < 3
      then (let random = xorshift_Next random;
                other = unat (random AND (modulus - 1));
                other = (if other \<ge> len then other - len else other)
            in breakPatterns_loop (Swap data (idx - 1 + i) (a + other)) a len modulus idx random
                 (i + 1))
      else data)"
  by pat_completeness auto
termination
  by (relation "measure (\<lambda>(data, a, len, modulus, idx, random, i). 3 - i)") simp_all

declare breakPatterns_loop.simps [simp del]

definition breakPatterns_func :: "'a list \<Rightarrow> nat \<Rightarrow> nat \<Rightarrow> 'a list" where
  "breakPatterns_func data a b =
     (let len = b - a
      in if len \<ge> 8
         then (let random = (of_nat len :: 64 word);
                   modulus = nextPowerOfTwo len;
                   idx = a + (len div 4) * 2 - 1
               in breakPatterns_loop data a len modulus idx random 0)
         else data)"

datatype sortedHint = unknownHint | increasingHint | decreasingHint

definition order2_func ::
  "('a \<Rightarrow> 'a \<Rightarrow> bool) \<Rightarrow> 'a list \<Rightarrow> nat \<Rightarrow> nat \<Rightarrow> nat \<Rightarrow> nat \<times> nat \<times> nat" where
  "order2_func lt data a b swaps =
     (if Less lt data b a then (b, a, swaps + 1) else (a, b, swaps))"

definition median_func ::
  "('a \<Rightarrow> 'a \<Rightarrow> bool) \<Rightarrow> 'a list \<Rightarrow> nat \<Rightarrow> nat \<Rightarrow> nat \<Rightarrow> nat \<Rightarrow> nat \<times> nat" where
  "median_func lt data a b c swaps =
     (let (a, b, swaps) = order2_func lt data a b swaps;
          (b, c, swaps) = order2_func lt data b c swaps;
          (a, b, swaps) = order2_func lt data a b swaps
      in (b, swaps))"

definition medianAdjacent_func ::
  "('a \<Rightarrow> 'a \<Rightarrow> bool) \<Rightarrow> 'a list \<Rightarrow> nat \<Rightarrow> nat \<Rightarrow> nat \<times> nat" where
  "medianAdjacent_func lt data a swaps = median_func lt data (a - 1) a (a + 1) swaps"

definition choosePivot_func ::
  "('a \<Rightarrow> 'a \<Rightarrow> bool) \<Rightarrow> 'a list \<Rightarrow> nat \<Rightarrow> nat \<Rightarrow> nat \<times> sortedHint" where
  "choosePivot_func lt data a b =
     (let l = b - a;
          swaps = 0;
          i = a + l div 4 * 1;
          j = a + l div 4 * 2;
          k = a + l div 4 * 3;
          (j, swaps) =
            (if l \<ge> 8
             then (let (i, j, k, swaps) =
                         (if l \<ge> 50
                          then (let (i, swaps) = medianAdjacent_func lt data i swaps;
                                    (j, swaps) = medianAdjacent_func lt data j swaps;
                                    (k, swaps) = medianAdjacent_func lt data k swaps
                                in (i, j, k, swaps))
                          else (i, j, k, swaps))
                   in median_func lt data i j k swaps)
             else (j, swaps))
      in if swaps = 0 then (j, increasingHint)
         else if swaps = 4 * 3 then (j, decreasingHint)
         else (j, unknownHint))"

function reverseRange_loop :: "'a list \<Rightarrow> nat \<Rightarrow> nat \<Rightarrow> 'a list" where
  "reverseRange_loop data i j =
     (if i < j then reverseRange_loop (Swap data i j) (i + 1) (j - 1) else data)"
  by pat_completeness auto
termination
  by (relation "measure (\<lambda>(data, i, j). j - i)") simp_all

declare reverseRange_loop.simps [simp del]

definition reverseRange_func :: "'a list \<Rightarrow> nat \<Rightarrow> nat \<Rightarrow> 'a list" where
  "reverseRange_func data a b = reverseRange_loop data a (b - 1)"

function partialInsertionSort_scan ::
  "('a \<Rightarrow> 'a \<Rightarrow> bool) \<Rightarrow> 'a list \<Rightarrow> nat \<Rightarrow> nat \<Rightarrow> nat" where
  "partialInsertionSort_scan lt data b i =
     (if i < b \<and> \<not> Less lt data i (i - 1) then partialInsertionSort_scan lt data b (i + 1)
      else i)"
  by pat_completeness auto
termination
  by (relation "measure (\<lambda>(lt, data, b, i). b - i)") auto

declare partialInsertionSort_scan.simps [simp del]

function shift_left :: "('a \<Rightarrow> 'a \<Rightarrow> bool) \<Rightarrow> 'a list \<Rightarrow> nat \<Rightarrow> 'a list" where
  "shift_left lt data j =
     (if j \<ge> 1
      then (if \<not> Less lt data j (j - 1) then data
            else shift_left lt (Swap data j (j - 1)) (j - 1))
      else data)"
  by pat_completeness auto
termination
  by (relation "measure (\<lambda>(lt, data, j). j)") simp_all

declare shift_left.simps [simp del]

function shift_right :: "('a \<Rightarrow> 'a \<Rightarrow> bool) \<Rightarrow> 'a list \<Rightarrow> nat \<Rightarrow> nat \<Rightarrow> 'a list" where
  "shift_right lt data b j =
     (if j < b
      then (if \<not> Less lt data j (j - 1) then data
            else shift_right lt (Swap data j (j - 1)) b (j + 1))
      else data)"
  by pat_completeness auto
termination
  by (relation "measure (\<lambda>(lt, data, b, j). b - j)") simp_all

declare shift_right.simps [simp del]

function partialInsertionSort_loop ::
  "('a \<Rightarrow> 'a \<Rightarrow> bool) \<Rightarrow> 'a list \<Rightarrow> nat \<Rightarrow> nat \<Rightarrow> nat \<Rightarrow> nat \<Rightarrow> 'a list \<times> bool" where
  "partialInsertionSort_loop lt data a b i j =
     (if j < 5
      then (let i = partialInsertionSort_scan lt data b i
            in if i = b then (data, True)
               else if b - a < 50 then (data, False)
               else (let data = Swap data i (i - 1);
                         data = (if i - a \<ge> 2 then shift_left lt data (i - 1) else data);
                         data = (if b - i \<ge> 2 then shift_right lt data b (i + 1) else data)
                     in partialInsertionSort_loop lt data a b i (j + 1)))
      else (data, False))"
  by pat_completeness auto
termination
  by (relation "measure (\<lambda>(lt, data, a, b, i, j). 5 - j)") simp_all

declare partialInsertionSort_loop.simps [simp del]

definition partialInsertionSort_func ::
  "('a \<Rightarrow> 'a \<Rightarrow> bool) \<Rightarrow> 'a list \<Rightarrow> nat \<Rightarrow> nat \<Rightarrow> 'a list \<times> bool" where
  "partialInsertionSort_func lt data a b = partialInsertionSort_loop lt data a b (a + 1) 0"

function partition_up ::
  "('a \<Rightarrow> 'a \<Rightarrow> bool) \<Rightarrow> 'a list \<Rightarrow> nat \<Rightarrow> int \<Rightarrow> int \<Rightarrow> int" where
  "partition_up lt data a i j =
     (if i \<le> j \<and> Less lt data (nat i) a then partition_up lt data a (i + 1) j else i)"
  by pat_completeness auto
termination
  by (relation "measure (\<lambda>(lt, data, a, i, j). nat (j + 1 - i))") auto

declare partition_up.simps [simp del]

function partition_down ::
  "('a \<Rightarrow> 'a \<Rightarrow> bool) \<Rightarrow> 'a list \<Rightarrow> nat \<Rightarrow> int \<Rightarrow> int \<Rightarrow> int" where
  "partition_down lt data a i j =
     (if i \<le> j \<and> \<not> Less lt data (nat j) a then partition_down lt data a i (j - 1) else j)"
  by pat_completeness auto
termination
  by (relation "measure (\<lambda>(lt, data, a, i, j). nat (j + 1 - i))") auto

declare partition_down.simps [simp del]

lemma partition_up_ge: "i \<le> partition_up lt data a i j"
proof (induction lt data a i j rule: partition_up.induct)
  case (1 lt data a i j)
  then show ?case by (subst partition_up.simps) auto
qed

lemma partition_down_le: "partition_down lt data a i j \<le> j"
proof (induction lt data a i j rule: partition_down.induct)
  case (1 lt data a i j)
  then show ?case by (subst partition_down.simps) auto
qed

lemma partition_down_ge: "min (i - 1) j \<le> partition_down lt data a i j"
proof (induction lt data a i j rule: partition_down.induct)
  case (1 lt data a i j)
  then show ?case by (subst partition_down.simps) auto
qed

function partition_loop ::
  "('a \<Rightarrow> 'a \<Rightarrow> bool) \<Rightarrow> 'a list \<Rightarrow> nat \<Rightarrow> int \<Rightarrow> int \<Rightarrow> 'a list \<times> int" where
  "partition_loop lt data a i j =
     (let i = partition_up lt data a i j;
          j = partition_down lt data a i j
      in if i > j then (data, j)
         else partition_loop lt (Swap data (nat i) (nat j)) a (i + 1) (j - 1))"
  by pat_completeness auto
termination
proof (relation "measure (\<lambda>(lt, data, a, i, j). nat (j + 1 - i))")
  show "wf (measure (\<lambda>(lt, data, a, i, j). nat (j + 1 - i)))" by simp
next
  fix lt :: "'a \<Rightarrow> 'a \<Rightarrow> bool" and data :: "'a list" and a :: nat and i j x xa :: int
  assume x: "x = partition_up lt data a i j" and xa: "xa = partition_down lt data a x j"
     and le: "\<not> xa < x"
  have "i \<le> x" using x partition_up_ge by simp
  moreover have "xa \<le> j" using xa partition_down_le by simp
  ultimately show "((lt, Swap data (nat x) (nat xa), a, x + 1, xa - 1), lt, data, a, i, j)
        \<in> measure (\<lambda>(lt, data, a, i, j). nat (j + 1 - i))"
    using le by simp
qed

declare partition_loop.simps [simp del]

lemma partition_loop_bounds:
  "partition_loop lt data a i j = (d, m) \<Longrightarrow> m \<le> j \<and> min (i - 1) j \<le> m"
proof (induction lt data a i j arbitrary: d m rule: partition_loop.induct)
  case (1 lt data a i j)
  let ?i = "partition_up lt data a i j"
  let ?j = "partition_down lt data a ?i j"
  have i: "i \<le> ?i" by (rule partition_up_ge)
  have j: "?j \<le> j" "min (?i - 1) j \<le> ?j" by (rule partition_down_le, rule partition_down_ge)
  show ?case
  proof (cases "?i > ?j")
    case True
    with "1.prems" have "m = ?j" by (subst (asm) partition_loop.simps) (auto simp: Let_def)
    with i j show ?thesis by auto
  next
    case False
    with "1.prems" have "partition_loop lt (Swap data (nat ?i) (nat ?j)) a (?i + 1) (?j - 1) = (d, m)"
      by (subst (asm) partition_loop.simps) (simp add: Let_def)
    from "1.IH"[OF refl refl _ this] False
    have "m \<le> ?j - 1 \<and> min (?i + 1 - 1) (?j - 1) \<le> m" by simp
    with i j False show ?thesis by auto
  qed
qed

definition partition_func ::
  "('a \<Rightarrow> 'a \<Rightarrow> bool) \<Rightarrow> 'a list \<Rightarrow> nat \<Rightarrow> nat \<Rightarrow> nat \<Rightarrow> 'a list \<times> nat \<times> bool" where
  "partition_func lt data a b pivot =
     (let data = Swap data a pivot;
          i = int a + 1;
          j = int b - 1;
          i = partition_up lt data a i j;
          j = partition_down lt data a i j
      in if i > j then (Swap data (nat j) a, nat j, True)
         else (let data = Swap data (nat i) (nat j);
                   (data, j) = partition_loop lt data a (i + 1) (j - 1)
               in (Swap data (nat j) a, nat j, False)))"

lemma partition_func_mid:
  assumes "a < b" and "partition_func lt data a b pivot = (d, mid, ap)"
  shows "a \<le> mid \<and> mid < b"
proof -
  let ?d = "Swap data a pivot"
  let ?i = "partition_up lt ?d a (int a + 1) (int b - 1)"
  let ?j = "partition_down lt ?d a ?i (int b - 1)"
  have i: "int a + 1 \<le> ?i" by (rule partition_up_ge)
  have j: "?j \<le> int b - 1" "min (?i - 1) (int b - 1) \<le> ?j"
    by (rule partition_down_le, rule partition_down_ge)
  show ?thesis
  proof (cases "?i > ?j")
    case True
    with assms(2) have "mid = nat ?j" by (simp add: partition_func_def Let_def)
    with i j assms(1) show ?thesis by auto
  next
    case False
    obtain d' m where l: "partition_loop lt (Swap ?d (nat ?i) (nat ?j)) a (?i + 1) (?j - 1) = (d', m)"
      by (cases "partition_loop lt (Swap ?d (nat ?i) (nat ?j)) a (?i + 1) (?j - 1)") auto
    with assms(2) False have "mid = nat m" by (simp add: partition_func_def Let_def)
    moreover from partition_loop_bounds[OF l] have "m \<le> ?j - 1 \<and> min (?i + 1 - 1) (?j - 1) \<le> m" .
    ultimately show ?thesis using i j False assms(1) by auto
  qed
qed

function partitionEqual_up ::
  "('a \<Rightarrow> 'a \<Rightarrow> bool) \<Rightarrow> 'a list \<Rightarrow> nat \<Rightarrow> int \<Rightarrow> int \<Rightarrow> int" where
  "partitionEqual_up lt data a i j =
     (if i \<le> j \<and> \<not> Less lt data a (nat i) then partitionEqual_up lt data a (i + 1) j else i)"
  by pat_completeness auto
termination
  by (relation "measure (\<lambda>(lt, data, a, i, j). nat (j + 1 - i))") auto

declare partitionEqual_up.simps [simp del]

function partitionEqual_down ::
  "('a \<Rightarrow> 'a \<Rightarrow> bool) \<Rightarrow> 'a list \<Rightarrow> nat \<Rightarrow> int \<Rightarrow> int \<Rightarrow> int" where
  "partitionEqual_down lt data a i j =
     (if i \<le> j \<and> Less lt data a (nat j) then partitionEqual_down lt data a i (j - 1) else j)"
  by pat_completeness auto
termination
  by (relation "measure (\<lambda>(lt, data, a, i, j). nat (j + 1 - i))") auto

declare partitionEqual_down.simps [simp del]

lemma partitionEqual_up_ge: "i \<le> partitionEqual_up lt data a i j"
proof (induction lt data a i j rule: partitionEqual_up.induct)
  case (1 lt data a i j)
  then show ?case by (subst partitionEqual_up.simps) auto
qed

lemma partitionEqual_down_le: "partitionEqual_down lt data a i j \<le> j"
proof (induction lt data a i j rule: partitionEqual_down.induct)
  case (1 lt data a i j)
  then show ?case by (subst partitionEqual_down.simps) auto
qed

function partitionEqual_loop ::
  "('a \<Rightarrow> 'a \<Rightarrow> bool) \<Rightarrow> 'a list \<Rightarrow> nat \<Rightarrow> int \<Rightarrow> int \<Rightarrow> 'a list \<times> int" where
  "partitionEqual_loop lt data a i j =
     (let i = partitionEqual_up lt data a i j;
          j = partitionEqual_down lt data a i j
      in if i > j then (data, i)
         else partitionEqual_loop lt (Swap data (nat i) (nat j)) a (i + 1) (j - 1))"
  by pat_completeness auto
termination
proof (relation "measure (\<lambda>(lt, data, a, i, j). nat (j + 1 - i))")
  show "wf (measure (\<lambda>(lt, data, a, i, j). nat (j + 1 - i)))" by simp
next
  fix lt :: "'a \<Rightarrow> 'a \<Rightarrow> bool" and data :: "'a list" and a :: nat and i j x xa :: int
  assume x: "x = partitionEqual_up lt data a i j" and xa: "xa = partitionEqual_down lt data a x j"
     and le: "\<not> xa < x"
  have "i \<le> x" using x partitionEqual_up_ge by simp
  moreover have "xa \<le> j" using xa partitionEqual_down_le by simp
  ultimately show "((lt, Swap data (nat x) (nat xa), a, x + 1, xa - 1), lt, data, a, i, j)
        \<in> measure (\<lambda>(lt, data, a, i, j). nat (j + 1 - i))"
    using le by simp
qed

declare partitionEqual_loop.simps [simp del]

lemma partitionEqual_loop_ge:
  "partitionEqual_loop lt data a i j = (d, m) \<Longrightarrow> i \<le> m"
proof (induction lt data a i j arbitrary: d m rule: partitionEqual_loop.induct)
  case (1 lt data a i j)
  let ?i = "partitionEqual_up lt data a i j"
  let ?j = "partitionEqual_down lt data a ?i j"
  have i: "i \<le> ?i" by (rule partitionEqual_up_ge)
  show ?case
  proof (cases "?i > ?j")
    case True
    with "1.prems" have "m = ?i" by (subst (asm) partitionEqual_loop.simps) (auto simp: Let_def)
    with i show ?thesis by auto
  next
    case False
    with "1.prems" have "partitionEqual_loop lt (Swap data (nat ?i) (nat ?j)) a (?i + 1) (?j - 1) = (d, m)"
      by (subst (asm) partitionEqual_loop.simps) (simp add: Let_def)
    from "1.IH"[OF refl refl _ this] False have "?i + 1 \<le> m" by simp
    with i show ?thesis by auto
  qed
qed

definition partitionEqual_func ::
  "('a \<Rightarrow> 'a \<Rightarrow> bool) \<Rightarrow> 'a list \<Rightarrow> nat \<Rightarrow> nat \<Rightarrow> nat \<Rightarrow> 'a list \<times> nat" where
  "partitionEqual_func lt data a b pivot =
     (let data = Swap data a pivot;
          i = int a + 1;
          j = int b - 1;
          (data, i) = partitionEqual_loop lt data a i j
      in (data, nat i))"

lemma partitionEqual_func_mid:
  assumes "partitionEqual_func lt data a b pivot = (d, mid)"
  shows "a < mid"
proof -
  obtain d' m where l: "partitionEqual_loop lt (Swap data a pivot) a (int a + 1) (int b - 1) = (d', m)"
    by (cases "partitionEqual_loop lt (Swap data a pivot) a (int a + 1) (int b - 1)") auto
  with assms have "mid = nat m" by (simp add: partitionEqual_func_def Let_def)
  with partitionEqual_loop_ge[OF l] show ?thesis by auto
qed

lemma partitionEqual_func_step:
  "(d, mid) = partitionEqual_func lt data a b pivot \<Longrightarrow> \<not> b - a \<le> 12 \<Longrightarrow> b - mid < b - a"
  using partitionEqual_func_mid[of lt data a b pivot d mid] by simp

lemma partition_func_step:
  "(d, p) = partition_func lt data a b pivot \<Longrightarrow> (mid, ap) = p \<Longrightarrow> \<not> b - a \<le> 12 \<Longrightarrow>
     mid - a < b - a \<and> b - (mid + 1) < b - a"
proof -
  assume p: "(d, p) = partition_func lt data a b pivot" "(mid, ap) = p" and n: "\<not> b - a \<le> 12"
  from n have "a < b" by simp
  moreover from p have "partition_func lt data a b pivot = (d, mid, ap)" by simp
  ultimately have "a \<le> mid \<and> mid < b" by (rule partition_func_mid)
  then show ?thesis by auto
qed

text \<open>
  One round of the loop of \<open>pdqsort_func\<close> up to the choice between the two partitions:
  the slice, the limit and the pivot as they are then, and whether the slice was found
  sorted.
\<close>

definition pdqsort_prepare ::
  "('a \<Rightarrow> 'a \<Rightarrow> bool) \<Rightarrow> 'a list \<Rightarrow> nat \<Rightarrow> nat \<Rightarrow> nat \<Rightarrow> bool \<Rightarrow> bool
     \<Rightarrow> 'a list \<times> nat \<times> nat \<times> bool" where
  "pdqsort_prepare lt data a b limit wasBalanced wasPartitioned =
     (let data = (if \<not> wasBalanced then breakPatterns_func data a b else data);
          limit = (if \<not> wasBalanced then limit - 1 else limit);
          (pivot, hint) = choosePivot_func lt data a b;
          (data, pivot, hint) =
            (if hint = decreasingHint
             then (reverseRange_func data a b, (b - 1) - (pivot - a), increasingHint)
             else (data, pivot, hint))
      in if wasBalanced \<and> wasPartitioned \<and> hint = increasingHint
         then (let (data, isSorted) = partialInsertionSort_func lt data a b
               in (data, limit, pivot, isSorted))
         else (data, limit, pivot, False))"

function pdqsort_func ::
  "('a \<Rightarrow> 'a \<Rightarrow> bool) \<Rightarrow> 'a list \<Rightarrow> nat \<Rightarrow> nat \<Rightarrow> nat \<Rightarrow> bool \<Rightarrow> bool \<Rightarrow> 'a list" where
  "pdqsort_func lt data a b limit wasBalanced wasPartitioned =
     (if b - a \<le> 12 then insertionSort_func lt data a b
      else if limit = 0 then heapSort_func lt data a b
      else (case pdqsort_prepare lt data a b limit wasBalanced wasPartitioned of
              (data, limit, pivot, isSorted) \<Rightarrow>
                if isSorted then data
                else if a > 0 \<and> \<not> Less lt data (a - 1) pivot
                then (case partitionEqual_func lt data a b pivot of
                        (data, mid) \<Rightarrow>
                          pdqsort_func lt data mid b limit wasBalanced wasPartitioned)
                else (case partition_func lt data a b pivot of
                        (data, mid, alreadyPartitioned) \<Rightarrow>
                          if mid - a < b - mid
                          then pdqsort_func lt (pdqsort_func lt data a mid limit True True)
                                 (mid + 1) b limit (mid - a \<ge> (b - a) div 8) alreadyPartitioned
                          else pdqsort_func lt (pdqsort_func lt data (mid + 1) b limit True True)
                                 a mid limit (b - mid \<ge> (b - a) div 8) alreadyPartitioned)))"
  by pat_completeness auto
termination
proof (relation "measure (\<lambda>(lt, data, a, b, limit, wb, wp). b - a)", goal_cases)
  case 1
  then show ?case by simp
next
  case 2
  then show ?case
    by (simp only: in_measure prod.case) (rule partitionEqual_func_step)
next
  case 3
  then show ?case
    by (auto simp only: in_measure prod.case dest: partition_func_step)
next
  case 4
  then show ?case
    by (simp only: in_measure prod.case; blast dest: partition_func_step)
next
  case 5
  then show ?case
    by (simp only: in_measure prod.case; metis partition_func_step)
next
  case 6
  then show ?case
    by (simp only: in_measure prod.case; blast dest: partition_func_step)
qed

declare pdqsort_func.simps [simp del]

text \<open>\<open>sort.Slice\<close>: the recursion starts on the whole slice, with the bit length of its
  length as the limit.\<close>

definition sort_Slice :: "('a \<Rightarrow> 'a \<Rightarrow> bool) \<Rightarrow> 'a list \<Rightarrow> 'a list" where
  "sort_Slice lt x =
     (let len = length x;
          limit = bits_Len len
      in pdqsort_func lt x 0 len limit True True)"

section \<open>Instances for the examples\<close>

text \<open>
  A sorting function that meets the contract: the insertion sort of \<open>insertionSort_func\<close> on
  lists. The sorted prefix is kept in reverse, so that its head is the element to the left of
  the one that moves; the element moves past every one that it is less than.
\<close>

fun insert_by :: "('a \<Rightarrow> 'a \<Rightarrow> bool) \<Rightarrow> 'a \<Rightarrow> 'a list \<Rightarrow> 'a list" where
  "insert_by lt x [] = [x]"
| "insert_by lt x (y # ys) = (if lt x y then y # insert_by lt x ys else x # y # ys)"

definition insertion_sort :: "('a \<Rightarrow> 'a \<Rightarrow> bool) \<Rightarrow> 'a list \<Rightarrow> 'a list" where
  "insertion_sort lt xs = rev (foldl (\<lambda>acc x. insert_by lt x acc) [] xs)"

text \<open>
  A plain rendering backend after \<open>lipgloss\<close> on a terminal without colours and on text
  without tabs: a text style leaves its text as it is; \<open>JoinVertical\<close> at the left
  position pads every line with spaces to the widest one; the box style puts one space
  of padding to the left and to the right of every line, pads to the widest line and draws
  the rounded border around the block. The width of a line is its number of code points.
  The forms of attribute values, durations and instants are left to the caller.
\<close>

definition StringWidth :: "string \<Rightarrow> nat" where
  "StringWidth s = length (filter (\<lambda>c. \<not> (128 \<le> (of_char c :: nat) \<and> (of_char c :: nat) < 192)) s)"

definition widest :: "string list \<Rightarrow> nat" where
  "widest ls = fold (\<lambda>l w. if w < StringWidth l then StringWidth l else w) ls 0"

definition pad_right :: "nat \<Rightarrow> string \<Rightarrow> string" where
  "pad_right w l = l @ replicate (w - StringWidth l) (CHR '' '')"

definition plain_JoinVertical :: "string list \<Rightarrow> string" where
  "plain_JoinVertical strs =
     (if length strs = 0 then []
      else if length strs = 1 then strs ! 0
      else (let blocks = map Split_nl strs;
                maxWidth = widest (concat blocks)
            in Join_nl (map (pad_right maxWidth) (concat blocks))))"

definition border_TopLeft :: string where "border_TopLeft = [CHR 0xE2, CHR 0x95, CHR 0xAD]"
definition border_TopRight :: string where "border_TopRight = [CHR 0xE2, CHR 0x95, CHR 0xAE]"
definition border_BottomLeft :: string where "border_BottomLeft = [CHR 0xE2, CHR 0x95, CHR 0xB0]"
definition border_BottomRight :: string where "border_BottomRight = [CHR 0xE2, CHR 0x95, CHR 0xAF]"
definition border_Horizontal :: string where "border_Horizontal = [CHR 0xE2, CHR 0x94, CHR 0x80]"
definition border_Vertical :: string where "border_Vertical = [CHR 0xE2, CHR 0x94, CHR 0x82]"

definition plain_boxStyle :: "string \<Rightarrow> string" where
  "plain_boxStyle str =
     (let lines = map (\<lambda>l. '' '' @ l @ '' '') (Split_nl str);
          width = widest lines;
          lines = map (pad_right width) lines;
          top = border_TopLeft @ concat (replicate width border_Horizontal) @ border_TopRight;
          bottom = border_BottomLeft @ concat (replicate width border_Horizontal) @ border_BottomRight
      in Join_nl ([top] @ map (\<lambda>l. border_Vertical @ l @ border_Vertical) lines @ [bottom]))"

definition plain_backend ::
  "(attr_value \<Rightarrow> string) \<Rightarrow> (int \<Rightarrow> string) \<Rightarrow> (int \<Rightarrow> string) \<Rightarrow> backend" where
  "plain_backend sv sd tf =
     \<lparr>labelStyle = (\<lambda>s. s), valueStyle = (\<lambda>s. s), errorHighlightStyle = (\<lambda>s. s),
      boxStyle = plain_boxStyle, JoinVertical = plain_JoinVertical,
      Sprint_value = sv, Sprint_duration = sd, Time_Format = tf\<rparr>"

text \<open>
  The backend of the examples shows a string as it is and a truth value by its name; any
  other value, every duration and every instant is shown by a fixed text that stands in
  for its form.
\<close>

definition example_backend :: backend where
  "example_backend =
     plain_backend
       (\<lambda>v. case v of STRING s \<Rightarrow> s | BOOL b \<Rightarrow> (if b then ''true'' else ''false'') | _ \<Rightarrow> ''?'')
       (\<lambda>d. ''1s'')
       (\<lambda>t. ''2006-01-02 15:04:05.000 MST'')"

text \<open>
  The four spans of the repository's test \<open>TestPrintSpanTree\<close>, with the instant of
  \<open>time.Now()\<close> as 0.
\<close>

definition rootSpan :: SpanStub where
  "rootSpan = \<lparr>Name = ''root-span'',
     SpanContext = \<lparr>TraceID = [1, 2, 3, 4, 5, 6, 7, 8, 9, 10, 11, 12, 13, 14, 15, 16],
                    SpanID = [10, 11, 12, 13, 14, 15, 16, 17]\<rparr>,
     Parent = \<lparr>TraceID = replicate 16 0, SpanID = nilSpanID\<rparr>,
     StartTime = - 2000000000, EndTime = - 1000000000,
     Attributes = [\<lparr>Key = ''component'', Value = STRING ''root''\<rparr>]\<rparr>"

definition childSpan1 :: SpanStub where
  "childSpan1 = \<lparr>Name = ''child-span-1'',
     SpanContext = \<lparr>TraceID = TraceID (SpanContext rootSpan),
                    SpanID = [20, 21, 22, 23, 24, 25, 26, 27]\<rparr>,
     Parent = SpanContext rootSpan,
     StartTime = - 1500000000, EndTime = - 1000000000,
     Attributes = [\<lparr>Key = ''component'', Value = STRING ''child-1''\<rparr>]\<rparr>"

definition childSpan2 :: SpanStub where
  "childSpan2 = \<lparr>Name = ''child-span-2'',
     SpanContext = \<lparr>TraceID = TraceID (SpanContext rootSpan),
                    SpanID = [30, 31, 32, 33, 34, 35, 36, 37]\<rparr>,
     Parent = SpanContext rootSpan,
     StartTime = - 1400000000, EndTime = - 1000000000,
     Attributes = [\<lparr>Key = ''component'', Value = STRING ''child-2''\<rparr>,
                   \<lparr>Key = ''error_code'', Value = STRING ''something_wrong''\<rparr>]\<rparr>"

definition childSpan3 :: SpanStub where
  "childSpan3 = \<lparr>Name = ''child-span-3'',
     SpanContext = \<lparr>TraceID = TraceID (SpanContext rootSpan),
                    SpanID = [40, 41, 42, 43, 44, 45, 46, 47]\<rparr>,
     Parent = SpanContext childSpan2,
     StartTime = - 1300000000, EndTime = - 1000000000,
     Attributes = [\<lparr>Key = ''component'', Value = STRING ''child-3''\<rparr>]\<rparr>"

definition test_spans :: "SpanStub list" where
  "test_spans = [rootSpan, childSpan1, childSpan2, childSpan3]"

text \<open>Two spans that name each other as parent, and a span whose parent is not in the input.\<close>

definition cycleSpanA :: SpanStub where
  "cycleSpanA = \<lparr>Name = ''a'',
     SpanContext = \<lparr>TraceID = replicate 16 1, SpanID = [0, 0, 0, 0, 0, 0, 0, 1]\<rparr>,
     Parent = \<lparr>TraceID = replicate 16 1, SpanID = [0, 0, 0, 0, 0, 0, 0, 2]\<rparr>,
     StartTime = 0, EndTime = 1, Attributes = []\<rparr>"

definition cycleSpanB :: SpanStub where
  "cycleSpanB = \<lparr>Name = ''b'',
     SpanContext = \<lparr>TraceID = replicate 16 1, SpanID = [0, 0, 0, 0, 0, 0, 0, 2]\<rparr>,
     Parent = \<lparr>TraceID = replicate 16 1, SpanID = [0, 0, 0, 0, 0, 0, 0, 1]\<rparr>,
     StartTime = 0, EndTime = 1, Attributes = []\<rparr>"

definition orphanSpan :: SpanStub where
  "orphanSpan = \<lparr>Name = ''orphan-span'',
     SpanContext = \<lparr>TraceID = TraceID (SpanContext rootSpan),
                    SpanID = [50, 51, 52, 53, 54, 55, 56, 57]\<rparr>,
     Parent = \<lparr>TraceID = TraceID (SpanContext rootSpan),
               SpanID = [90, 91, 92, 93, 94, 95, 96, 97]\<rparr>,
     StartTime = - 1200000000, EndTime = - 1000000000,
     Attributes = []\<rparr>"

definition orphan_spans :: "SpanStub list" where
  "orphan_spans = [rootSpan, orphanSpan, childSpan1]"


text \<open>The children map of the root span and its first child alone.\<close>

definition two_spans_map :: "string \<rightharpoonup> SpanStub list" where
  "two_spans_map = children_of insertion_sort [span_key rootSpan] [rootSpan, childSpan1]"

text \<open>
  Thirteen root spans: twelve that start at the same instant, then one that starts
  earlier.
\<close>

definition tied_root :: "string \<Rightarrow> 8 word \<Rightarrow> int \<Rightarrow> SpanStub" where
  "tied_root name k t =
     \<lparr>Name = name,
      SpanContext = \<lparr>TraceID = replicate 16 1, SpanID = [0, 0, 0, 0, 0, 0, 0, k]\<rparr>,
      Parent = \<lparr>TraceID = replicate 16 0, SpanID = nilSpanID\<rparr>,
      StartTime = t, EndTime = t + 1, Attributes = []\<rparr>"

definition tied_roots :: "SpanStub list" where
  "tied_roots =
     [tied_root ''a'' 1 1, tied_root ''b'' 2 1, tied_root ''c'' 3 1, tied_root ''d'' 4 1,
      tied_root ''e'' 5 1, tied_root ''f'' 6 1, tied_root ''g'' 7 1, tied_root ''h'' 8 1,
      tied_root ''i'' 9 1, tied_root ''j'' 10 1, tied_root ''k'' 11 1, tied_root ''l'' 12 1,
      tied_root ''m'' 13 0]"

section \<open>The loops of the printer\<close>

lemma find_roots_filter:
  "find_roots spans roots = roots @ filter (\<lambda>s. \<not> has_parent s) spans"
  by (induction spans arbitrary: roots) (auto simp: has_parent_def)

lemma lookup_upd: "lookup (m(k \<mapsto> v)) k' = (if k' = k then v else lookup m k')"
  by (simp add: lookup_def)

lemma group_children_lookup:
  "lookup (group_children spans m) k =
     lookup m k @ filter (\<lambda>s. has_parent s \<and> parent_key s = k) spans"
  by (induction spans arbitrary: m)
     (auto simp: lookup_upd has_parent_def parent_key_def Let_def)

lemma group_children_dom:
  "dom (group_children spans m) = dom m \<union> set (map parent_key (filter has_parent spans))"
  by (induction spans arbitrary: m)
     (auto simp: has_parent_def parent_key_def Let_def)

lemma sort_children_distinct:
  "distinct pids \<Longrightarrow>
   sort_children srt pids m =
     (\<lambda>k. if k \<in> set pids then Some (srt byStartTime (lookup m k)) else m k)"
proof (induction pids arbitrary: m)
  case Nil
  then show ?case by simp
next
  case (Cons pid pids)
  then show ?case by (auto simp: lookup_upd fun_eq_iff)
qed

lemma contract_mset: "sort_Slice_contract srt \<Longrightarrow> mset (srt byStartTime xs) = mset xs"
  by (simp add: sort_Slice_contract_def)

lemma contract_set: "sort_Slice_contract srt \<Longrightarrow> set (srt byStartTime xs) = set xs"
  by (metis contract_mset set_mset_mset)

lemma contract_Nil: "sort_Slice_contract srt \<Longrightarrow> srt byStartTime [] = []"
  using contract_mset[of srt "[]"] by simp

lemma sort_children_mset:
  "sort_Slice_contract srt \<Longrightarrow>
   mset (lookup (sort_children srt pids m) k) = mset (lookup m k)"
  by (induction pids arbitrary: m) (auto simp: lookup_upd sort_Slice_contract_def)

lemma children_of_member:
  assumes "sort_Slice_contract srt" and "c \<in> set (lookup (children_of srt pids spans) k)"
  shows "c \<in> set spans \<and> has_parent c \<and> parent_key c = k"
proof -
  have "mset (lookup (children_of srt pids spans) k)
          = mset (filter (\<lambda>s. has_parent s \<and> parent_key s = k) spans)"
    using assms(1) by (simp add: children_of_def sort_children_mset group_children_lookup)
       (simp add: lookup_def)
  then have "set (lookup (children_of srt pids spans) k)
          = set (filter (\<lambda>s. has_parent s \<and> parent_key s = k) spans)"
    by (metis set_mset_mset)
  with assms(2) show ?thesis by simp
qed

lemma children_of_lookup:
  assumes "sort_Slice_contract srt" and "range_order pids (group_children spans Map.empty)"
  shows "lookup (children_of srt pids spans) k
       = srt byStartTime (filter (\<lambda>s. has_parent s \<and> parent_key s = k) spans)"
proof -
  have g: "lookup (group_children spans Map.empty) k
         = filter (\<lambda>s. has_parent s \<and> parent_key s = k) spans"
    by (simp add: group_children_lookup) (simp add: lookup_def)
  have d: "distinct pids" "set pids = dom (group_children spans Map.empty)"
    using assms(2) by (simp_all add: range_order_def)
  show ?thesis
  proof (cases "k \<in> set pids")
    case True
    then show ?thesis using d(1) g by (simp add: children_of_def sort_children_distinct lookup_def)
  next
    case False
    then have "group_children spans Map.empty k = None" using d(2) by auto
    then have "lookup (group_children spans Map.empty) k = []" by (simp add: lookup_def)
    with g have e: "filter (\<lambda>s. has_parent s \<and> parent_key s = k) spans = []" by simp
    have "lookup (children_of srt pids spans) k = []"
      using False d(1) \<open>group_children spans Map.empty k = None\<close>
      by (simp add: children_of_def sort_children_distinct lookup_def)
    then show ?thesis using e assms(1) by (simp add: contract_Nil)
  qed
qed


lemma children_loop_Some:
  "children_loop build cs lines = Some out \<Longrightarrow>
     out = lines @ map (\<lambda>c. indentAllLines (the (build c)) childIndent) cs"
proof (induction cs arbitrary: lines)
  case Nil
  then show ?case by simp
next
  case (Cons c cs)
  then obtain b where b: "build c = Some b" by (cases "build c") auto
  with Cons.prems have "children_loop build cs (lines @ [indentAllLines b childIndent]) = Some out"
    by simp
  from Cons.IH[OF this] b show ?case by simp
qed

lemma children_loop_None:
  "(children_loop build cs lines = None) = (\<exists>c\<in>set cs. build c = None)"
  by (induction cs arbitrary: lines) (auto split: option.splits)

lemma children_loop_member:
  assumes "children_loop build cs lines = Some out" and "c \<in> set cs"
  shows "\<exists>box before after. build c = Some box
           \<and> out = before @ [indentAllLines box childIndent] @ after"
  using assms
proof (induction cs arbitrary: lines)
  case Nil
  then show ?case by simp
next
  case (Cons x cs)
  from Cons.prems(1) obtain b where b: "build x = Some b"
    and rest: "children_loop build cs (lines @ [indentAllLines b childIndent]) = Some out"
    by (auto split: option.splits)
  show ?case
  proof (cases "c = x")
    case True
    from children_loop_Some[OF rest]
    have "out = lines @ [indentAllLines b childIndent]
               @ map (\<lambda>c. indentAllLines (the (build c)) childIndent) cs" by simp
    with b True show ?thesis by blast
  next
    case False
    with Cons.prems(2) have "c \<in> set cs" by simp
    from Cons.IH[OF rest this] show ?thesis .
  qed
qed

lemma children_loop_cong:
  "\<forall>c\<in>set cs. f c = g c \<Longrightarrow> children_loop f cs lines = children_loop g cs lines"
  by (induction cs arbitrary: lines) (auto split: option.splits)

lemma print_roots_None:
  "(print_roots be depth roots cm w = None) = (\<exists>r\<in>set roots. buildSpanBox be depth r cm = None)"
  by (induction roots arbitrary: w) (auto split: option.splits)

lemma print_roots_cong:
  "\<forall>r\<in>set roots. buildSpanBox be depth r cm = buildSpanBox be depth r cm' \<Longrightarrow>
   print_roots be depth roots cm w = print_roots be depth roots cm' w"
  by (induction roots arbitrary: w) (auto split: option.splits)

lemma PrintSpanTree_None:
  assumes "sort_Slice_contract srt"
  shows "(PrintSpanTree srt be pids depth w spans = None)
       = (\<exists>r\<in>set (roots_of srt spans).
            buildSpanBox be depth r (children_of srt pids spans) = None)"
proof (cases "spans = []")
  case True
  then show ?thesis using assms by (simp add: PrintSpanTree_def roots_of_def contract_Nil)
next
  case False
  then show ?thesis by (simp add: PrintSpanTree_def print_roots_None)
qed

lemma buildSpanBox_leaf:
  "lookup cm (span_key s) = [] \<Longrightarrow> buildSpanBox be (Suc depth) s cm \<noteq> None"
  by (simp add: Let_def)

lemma buildSpanBox_children:
  "\<forall>c\<in>set (lookup cm (span_key s)). buildSpanBox be depth c cm \<noteq> None \<Longrightarrow>
   buildSpanBox be (Suc depth) s cm \<noteq> None"
proof -
  assume a: "\<forall>c\<in>set (lookup cm (span_key s)). buildSpanBox be depth c cm \<noteq> None"
  have "children_loop (\<lambda>child. buildSpanBox be depth child cm) (lookup cm (span_key s))
           (attribute_loop be (Attributes s) (field_lines be s @ [labelStyle be ''Attributes:'']))
         \<noteq> None"
    using a by (simp add: children_loop_None)
  then show ?thesis by (auto simp: Let_def split: option.splits)
qed

lemma buildSpanBox_is_box:
  "buildSpanBox be depth span cm = Some block \<Longrightarrow> \<exists>content. block = boxStyle be content"
  by (cases depth) (auto simp: Let_def split: option.splits)


section \<open>Facts about the instances\<close>

lemma insert_by_mset: "mset (insert_by lt x xs) = add_mset x (mset xs)"
  by (induction xs) auto

lemma insert_by_length: "length (insert_by lt x xs) = Suc (length xs)"
  by (induction xs) auto

lemma insertion_sort_mset: "mset (insertion_sort lt xs) = mset xs"
proof -
  have "mset (foldl (\<lambda>acc x. insert_by lt x acc) acc xs) = mset acc + mset xs" for acc
    by (induction xs arbitrary: acc) (auto simp: insert_by_mset)
  then show ?thesis by (simp add: insertion_sort_def)
qed

lemma insert_by_set: "set (insert_by lt x xs) = insert x (set xs)"
  by (induction xs) auto

lemma insert_by_sorted:
  "sorted_wrt (\<lambda>x y. \<not> byStartTime x y) xs \<Longrightarrow>
   sorted_wrt (\<lambda>x y. \<not> byStartTime x y) (insert_by byStartTime x xs)"
proof (induction xs)
  case Nil
  then show ?case by simp
next
  case (Cons y ys)
  then show ?case by (auto simp: insert_by_set byStartTime_def Time_Before_def)
qed

lemma insertion_sort_sorted:
  "sorted_wrt (\<lambda>x y. \<not> byStartTime y x) (insertion_sort byStartTime xs)"
proof -
  have "sorted_wrt (\<lambda>x y. \<not> byStartTime x y) acc \<Longrightarrow>
        sorted_wrt (\<lambda>x y. \<not> byStartTime x y) (foldl (\<lambda>acc x. insert_by byStartTime x acc) acc xs)" for acc
    by (induction xs arbitrary: acc) (auto simp: insert_by_sorted)
  then show ?thesis by (simp add: insertion_sort_def sorted_wrt_rev)
qed

lemma insertion_sort_contract: "sort_Slice_contract insertion_sort"
  by (simp add: sort_Slice_contract_def insertion_sort_mset insertion_sort_sorted)

text \<open>On a slice of at most twelve elements \<open>sort.Slice\<close> is this insertion sort.\<close>

lemma Swap_adjacent:
  "Swap (pre @ y # x # rest) (Suc (length pre)) (length pre) = pre @ x # y # rest"
  by (simp add: Swap_def nth_append list_update_append)

lemma insertionSort_inner_insert_by:
  "insertionSort_inner lt (pre @ rev placed @ x # rest) (length pre) (length pre + length placed)
     = pre @ rev (insert_by lt x placed) @ rest"
proof (induction placed arbitrary: rest)
  case Nil
  then show ?case by (subst insertionSort_inner.simps) simp
next
  case (Cons y R)
  let ?data = "pre @ rev R @ y # x # rest"
  let ?n = "length pre + length R"
  have n: "?n = length (pre @ rev R)" by simp
  have data: "?data = (pre @ rev R) @ y # x # rest" by simp
  have less: "Less lt ?data (Suc ?n) ?n = lt x y"
    unfolding data n Less_def by (simp add: nth_append del: append_assoc)
  have swap: "Swap ?data (Suc ?n) ?n = pre @ rev R @ x # y # rest"
    unfolding data n using Swap_adjacent[of "pre @ rev R" y x rest] by simp
  have step: "insertionSort_inner lt ?data (length pre) (Suc ?n)
      = (if lt x y then insertionSort_inner lt (pre @ rev R @ x # y # rest) (length pre) ?n
         else ?data)"
    by (subst insertionSort_inner.simps) (simp add: less swap)
  show ?case
  proof (cases "lt x y")
    case True
    have "insertionSort_inner lt ?data (length pre) (Suc ?n)
        = pre @ rev (insert_by lt x R) @ (y # rest)"
      using step True Cons.IH[of "y # rest"] by simp
    then show ?thesis using True by simp
  next
    case False
    then show ?thesis using step by simp
  qed
qed

lemma insertionSort_outer_foldl:
  "insertionSort_outer lt (pre @ rev placed @ todo) (length pre)
       (length pre + length placed + length todo) (length pre + length placed)
     = pre @ rev (foldl (\<lambda>acc x. insert_by lt x acc) placed todo)"
proof (induction todo arbitrary: placed)
  case Nil
  then show ?case by (subst insertionSort_outer.simps) simp
next
  case (Cons x todo)
  have "insertionSort_outer lt (pre @ rev placed @ x # todo) (length pre)
       (length pre + length placed + length (x # todo)) (length pre + length placed)
     = insertionSort_outer lt (pre @ rev (insert_by lt x placed) @ todo) (length pre)
       (length pre + length placed + length (x # todo)) (length pre + length placed + 1)"
    by (subst insertionSort_outer.simps) (simp add: insertionSort_inner_insert_by)
  then show ?case using Cons.IH[of "insert_by lt x placed"] by (simp add: insert_by_length)
qed

lemma insertionSort_func_insertion_sort:
  "insertionSort_func lt xs 0 (length xs) = insertion_sort lt xs"
proof (cases xs)
  case Nil
  then show ?thesis
    by (simp add: insertionSort_func_def insertion_sort_def)
       (subst insertionSort_outer.simps, simp)
next
  case (Cons x todo)
  have "insertionSort_outer lt ([] @ rev [x] @ todo) (length ([]::'a list))
       (length ([]::'a list) + length [x] + length todo) (length ([]::'a list) + length [x])
     = [] @ rev (foldl (\<lambda>acc x. insert_by lt x acc) [x] todo)"
    by (rule insertionSort_outer_foldl)
  then show ?thesis by (simp add: insertionSort_func_def insertion_sort_def Cons)
qed

lemma pdqsort_func_short:
  "b - a \<le> 12 \<Longrightarrow>
     pdqsort_func lt x a b limit wasBalanced wasPartitioned = insertionSort_func lt x a b"
  by (subst pdqsort_func.simps) simp

lemma sort_Slice_short: "length xs \<le> 12 \<Longrightarrow> sort_Slice lt xs = insertion_sort lt xs"
  unfolding sort_Slice_def Let_def
  by (simp only: pdqsort_func_short diff_zero insertionSort_func_insertion_sort)

text \<open>The insertion sort keeps the spans of one start time in the order of the input.\<close>

lemma insert_by_filter:
  "filter (\<lambda>s. StartTime s = t) (insert_by byStartTime x xs)
     = (if StartTime x = t then x # filter (\<lambda>s. StartTime s = t) xs
        else filter (\<lambda>s. StartTime s = t) xs)"
  by (induction xs) (auto simp: byStartTime_def Time_Before_def)

lemma insertion_sort_stable:
  "filter (\<lambda>s. StartTime s = t) (insertion_sort byStartTime xs) = filter (\<lambda>s. StartTime s = t) xs"
proof -
  let ?P = "\<lambda>s. StartTime s = t"
  have "filter ?P (foldl (\<lambda>acc x. insert_by byStartTime x acc) acc xs)
      = rev (filter ?P xs) @ filter ?P acc" for acc
    by (induction xs arbitrary: acc) (simp_all add: insert_by_filter)
  then have "filter ?P (foldl (\<lambda>acc x. insert_by byStartTime x acc) [] xs) = rev (filter ?P xs)"
    by simp
  then have "rev (filter ?P (foldl (\<lambda>acc x. insert_by byStartTime x acc) [] xs)) = filter ?P xs"
    by simp
  then show ?thesis unfolding insertion_sort_def by (simp only: rev_filter)
qed

lemma sort_Slice_short_stable:
  "length xs \<le> 12 \<Longrightarrow>
   filter (\<lambda>s. StartTime s = t) (sort_Slice byStartTime xs) = filter (\<lambda>s. StartTime s = t) xs"
  by (simp add: sort_Slice_short insertion_sort_stable)

lemma key_rootSpan: "span_key rootSpan = ''0a0b0c0d0e0f1011''"
  by code_simp

lemma key_childSpan1: "span_key childSpan1 = ''1415161718191a1b''"
  by code_simp

lemma key_childSpan2: "span_key childSpan2 = ''1e1f202122232425''"
  by code_simp

lemma key_childSpan3: "span_key childSpan3 = ''28292a2b2c2d2e2f''"
  by code_simp

lemma parent_key_childSpan1: "parent_key childSpan1 = ''0a0b0c0d0e0f1011''"
  by code_simp

lemma parent_key_childSpan2: "parent_key childSpan2 = ''0a0b0c0d0e0f1011''"
  by code_simp

lemma parent_key_childSpan3: "parent_key childSpan3 = ''1e1f202122232425''"
  by code_simp

lemma has_parent_rootSpan: "\<not> has_parent rootSpan"
  by code_simp

lemma has_parent_childSpan1: "has_parent childSpan1"
  by code_simp

lemma has_parent_childSpan2: "has_parent childSpan2"
  by code_simp

lemma has_parent_childSpan3: "has_parent childSpan3"
  by code_simp

lemmas keys = key_rootSpan key_childSpan1 key_childSpan2 key_childSpan3
  parent_key_childSpan1 parent_key_childSpan2 parent_key_childSpan3

lemmas parents = has_parent_rootSpan has_parent_childSpan1 has_parent_childSpan2 has_parent_childSpan3

lemma test_dom:
  "dom (group_children test_spans Map.empty) = {span_key rootSpan, span_key childSpan2}"
  by (subst group_children_dom) (simp add: test_spans_def keys parents insert_commute)

lemma test_spans_acyclic: "acyclic (parent_edges test_spans)"
proof -
  let ?f = "\<lambda>k. if k = span_key rootSpan then 0 else if k = span_key childSpan2 then 1 else (2::nat)"
  have "parent_edges test_spans \<subseteq> measure ?f"
    by (simp add: parent_edges_def test_spans_def keys parents)
  moreover have "acyclic (measure ?f)" by (rule wf_acyclic) simp
  ultimately show ?thesis by (metis acyclic_subset)
qed

lemma key_orphanSpan: "span_key orphanSpan = ''3233343536373839''"
  by code_simp

lemma parent_key_orphanSpan: "parent_key orphanSpan = ''5a5b5c5d5e5f6061''"
  by code_simp

lemma has_parent_orphanSpan: "has_parent orphanSpan"
  by code_simp

lemma orphan_distinct: "orphanSpan \<noteq> rootSpan" "orphanSpan \<noteq> childSpan1"
  by (simp_all add: orphanSpan_def rootSpan_def childSpan1_def)

lemma reachable_orphan_spans:
  "s \<in> reachable orphan_spans \<Longrightarrow> s = rootSpan \<or> s = childSpan1"
proof (induction rule: reachable.induct)
  case (root s)
  then show ?case by (auto simp: orphan_spans_def has_parent_orphanSpan)
next
  case (child p c)
  then show ?case
    by (auto simp: orphan_spans_def keys parent_key_orphanSpan)
qed

lemma lookup_two_spans_root: "lookup two_spans_map (span_key rootSpan) = [childSpan1]"
  by code_simp

lemma lookup_two_spans_child: "lookup two_spans_map (span_key childSpan1) = []"
  by code_simp

lemma two_spans_child_box: "buildSpanBox example_backend (Suc 0) childSpan1 two_spans_map \<noteq> None"
  by (rule buildSpanBox_leaf) (rule lookup_two_spans_child)

lemma two_spans_root_box: "buildSpanBox example_backend (Suc (Suc 0)) rootSpan two_spans_map \<noteq> None"
proof (rule buildSpanBox_children, rule ballI)
  fix c assume "c \<in> set (lookup two_spans_map (span_key rootSpan))"
  then have "c = childSpan1" by (simp add: lookup_two_spans_root)
  then show "buildSpanBox example_backend (Suc 0) c two_spans_map \<noteq> None"
    using two_spans_child_box by blast
qed

text \<open>Lines: \<open>Split_nl\<close> undoes \<open>Join_nl\<close> on lines without a line break.\<close>

lemma Split_nl_not_Nil: "Split_nl s \<noteq> []"
  by (cases s) (auto split: list.splits)

lemma Split_nl_no_newline: "l \<in> set (Split_nl s) \<Longrightarrow> newline \<notin> set l"
proof (induction s arbitrary: l)
  case Nil
  then show ?case by simp
next
  case (Cons c cs)
  show ?case
  proof (cases "c = newline")
    case True
    with Cons show ?thesis by auto
  next
    case False
    obtain x xs where x: "Split_nl cs = x # xs"
      using Split_nl_not_Nil[of cs] by (cases "Split_nl cs") auto
    with Cons False show ?thesis by auto
  qed
qed

lemma Split_nl_line: "newline \<notin> set l \<Longrightarrow> Split_nl (l @ newline # r) = l # Split_nl r"
  by (induction l) (auto split: list.splits)

lemma Split_nl_single: "newline \<notin> set l \<Longrightarrow> Split_nl l = [l]"
  by (induction l) (auto split: list.splits)

lemma Split_Join:
  "ls \<noteq> [] \<Longrightarrow> \<forall>l\<in>set ls. newline \<notin> set l \<Longrightarrow> Split_nl (Join_nl ls) = ls"
proof (induction ls rule: Join_nl.induct)
  case 1
  then show ?case by simp
next
  case (2 l)
  then show ?case by (simp add: Split_nl_single)
next
  case (3 l v va)
  then show ?case by (simp add: Split_nl_line)
qed

lemma Split_nl_append_newline:
  "\<exists>xs. xs \<noteq> [] \<and> Split_nl (ps @ newline # r) = xs @ Split_nl r"
proof (induction ps)
  case Nil
  have "Split_nl ([] @ newline # r) = [[]] @ Split_nl r" by simp
  then show ?case by blast
next
  case (Cons p ps)
  then obtain xs where xs: "xs \<noteq> []" "Split_nl (ps @ newline # r) = xs @ Split_nl r" by blast
  then obtain x xs' where x: "xs = x # xs'" by (cases xs) auto
  show ?case
  proof (cases "p = newline")
    case True
    then have "Split_nl ((p # ps) @ newline # r) = ([] # xs) @ Split_nl r" using xs by simp
    then show ?thesis by blast
  next
    case False
    then have "Split_nl ((p # ps) @ newline # r) = ((p # x) # xs') @ Split_nl r"
      using xs x by simp
    then show ?thesis by blast
  qed
qed

lemma line_after_newline:
  assumes "sublist [newline, c] s" and "c \<noteq> newline"
  shows "\<exists>l\<in>set (tl (Split_nl s)). l \<noteq> [] \<and> hd l = c"
proof -
  from assms(1) obtain ps ss where s: "s = ps @ newline # c # ss"
    by (auto simp: sublist_def)
  from Split_nl_append_newline[of ps "c # ss"] obtain xs where
    xs: "xs \<noteq> []" "Split_nl s = xs @ Split_nl (c # ss)" using s by blast
  obtain l ls where l: "Split_nl (c # ss) = (c # l) # ls"
    using assms(2) Split_nl_not_Nil[of ss] by (cases "Split_nl ss") auto
  have "tl (Split_nl s) = tl xs @ (c # l) # ls" using xs l by simp
  then have "c # l \<in> set (tl (Split_nl s))" by simp
  then show ?thesis by force
qed

lemma Join_nl_Cons: "\<exists>r. Join_nl (l # ls) = l @ r"
  by (cases ls) auto

text \<open>The plain backend keeps lines, and its box starts every line with a border sign.\<close>

lemma pad_right_no_newline: "newline \<notin> set l \<Longrightarrow> newline \<notin> set (pad_right w l)"
  by (auto simp: pad_right_def newline_def)

lemma horizontal_no_newline: "newline \<notin> set (concat (replicate w border_Horizontal))"
  by (induction w) (auto simp: border_Horizontal_def newline_def)

lemma plain_boxStyle_lines:
  "\<exists>w. Split_nl (plain_boxStyle str)
     = (border_TopLeft @ concat (replicate w border_Horizontal) @ border_TopRight)
       # map (\<lambda>l. border_Vertical @ pad_right w ('' '' @ l @ '' '') @ border_Vertical) (Split_nl str)
       @ [border_BottomLeft @ concat (replicate w border_Horizontal) @ border_BottomRight]"
proof -
  let ?ls = "map (\<lambda>l. '' '' @ l @ '' '') (Split_nl str)"
  let ?w = "widest ?ls"
  let ?top = "border_TopLeft @ concat (replicate ?w border_Horizontal) @ border_TopRight"
  let ?bottom = "border_BottomLeft @ concat (replicate ?w border_Horizontal) @ border_BottomRight"
  let ?all = "[?top] @ map (\<lambda>l. border_Vertical @ l @ border_Vertical) (map (pad_right ?w) ?ls) @ [?bottom]"
  have "\<forall>l\<in>set ?all. newline \<notin> set l"
    using Split_nl_no_newline[of _ str] horizontal_no_newline[of ?w]
    by (auto simp: pad_right_def border_TopLeft_def border_TopRight_def border_BottomLeft_def
        border_BottomRight_def border_Vertical_def newline_def)
  then have "Split_nl (Join_nl ?all) = ?all" by (intro Split_Join) auto
  moreover have "plain_boxStyle str = Join_nl ?all" by (simp add: plain_boxStyle_def Let_def comp_def)
  ultimately have "Split_nl (plain_boxStyle str)
     = ?top # map (\<lambda>l. border_Vertical @ pad_right ?w ('' '' @ l @ '' '') @ border_Vertical) (Split_nl str)
       @ [?bottom]" by (simp add: comp_def)
  then show ?thesis by blast
qed

lemma plain_JoinVertical_lines:
  assumes "e \<in> set entries"
  shows "\<exists>w before after. Split_nl (plain_JoinVertical entries)
           = before @ map (\<lambda>l. l @ replicate (w l) (CHR '' '')) (Split_nl e) @ after"
proof (cases "length entries = 1")
  case True
  with assms have "entries = [e]" by (cases entries) auto
  then have "Split_nl (plain_JoinVertical entries)
     = [] @ map (\<lambda>l. l @ replicate ((\<lambda>l. 0) l) (CHR '' '')) (Split_nl e) @ []"
    by (simp add: plain_JoinVertical_def)
  then show ?thesis by (intro exI[of _ "\<lambda>l. 0"] exI[of _ "[]"])
next
  case False
  from assms obtain xs ys where e: "entries = xs @ e # ys" by (meson split_list)
  let ?blocks = "map Split_nl entries"
  let ?w = "widest (concat ?blocks)"
  have ne: "concat ?blocks \<noteq> []" using e Split_nl_not_Nil by auto
  have "\<forall>l\<in>set (map (pad_right ?w) (concat ?blocks)). newline \<notin> set l"
    using Split_nl_no_newline by (auto intro!: pad_right_no_newline)
  then have "Split_nl (Join_nl (map (pad_right ?w) (concat ?blocks))) = map (pad_right ?w) (concat ?blocks)"
    using ne by (intro Split_Join) auto
  moreover have "plain_JoinVertical entries = Join_nl (map (pad_right ?w) (concat ?blocks))"
    using False assms by (auto simp: plain_JoinVertical_def Let_def)
  ultimately have "Split_nl (plain_JoinVertical entries)
      = map (pad_right ?w) (concat (map Split_nl xs))
        @ map (\<lambda>l. l @ replicate ((\<lambda>l. ?w - StringWidth l) l) (CHR '' '')) (Split_nl e)
        @ map (pad_right ?w) (concat (map Split_nl ys))"
    by (simp add: e pad_right_def)
  then show ?thesis
    by (intro exI[of _ "\<lambda>l. ?w - StringWidth l"]
          exI[of _ "map (pad_right ?w) (concat (map Split_nl xs))"]
          exI[of _ "map (pad_right ?w) (concat (map Split_nl ys))"])
qed

lemma keeps_lines_plain: "keeps_lines (plain_backend sv sd tf)"
  unfolding keeps_lines_def
proof (intro allI impI)
  fix entries :: "string list" and e :: string
  assume e: "e \<in> set entries"
  from plain_JoinVertical_lines[OF e] obtain w before after where
    j: "Split_nl (plain_JoinVertical entries)
           = before @ map (\<lambda>l. l @ replicate (w l) (CHR '' '')) (Split_nl e) @ after" by blast
  from plain_boxStyle_lines[of "plain_JoinVertical entries"] obtain w' where
    b: "Split_nl (plain_boxStyle (plain_JoinVertical entries))
     = (border_TopLeft @ concat (replicate w' border_Horizontal) @ border_TopRight)
       # map (\<lambda>l. border_Vertical @ pad_right w' ('' '' @ l @ '' '') @ border_Vertical)
               (Split_nl (plain_JoinVertical entries))
       @ [border_BottomLeft @ concat (replicate w' border_Horizontal) @ border_BottomRight]" by blast
  let ?frame = "\<lambda>l. border_Vertical @ pad_right w' ('' '' @ l @ '' '') @ border_Vertical"
  let ?ms = "Split_nl (plain_boxStyle (plain_JoinVertical entries))"
  let ?k = "Suc (length before)"
  have len: "?k + length (Split_nl e) \<le> length ?ms" by (simp add: b j)
  have "sublist (Split_nl e ! i) (?ms ! (?k + i))" if i: "i < length (Split_nl e)" for i
  proof -
    let ?l = "Split_nl e ! i"
    have "(map ?frame (Split_nl (plain_JoinVertical entries))) ! (length before + i)
        = ?frame (?l @ replicate (w ?l) (CHR '' ''))"
      using i by (simp add: j nth_append)
    then have "?ms ! (?k + i) = ?frame (?l @ replicate (w ?l) (CHR '' ''))"
      using i by (simp add: b j nth_append)
    also have "\<dots> = (border_Vertical @ '' '') @ ?l
        @ (replicate (w ?l) (CHR '' '') @ '' ''
           @ replicate (w' - StringWidth ('' '' @ (?l @ replicate (w ?l) (CHR '' '')) @ '' '')) (CHR '' '')
           @ border_Vertical)"
      by (simp add: pad_right_def)
    finally show ?thesis by (simp only: sublist_appendI)
  qed
  with len have "lines_within (Split_nl e) ?ms" unfolding lines_within_def by blast
  then show "lines_within (Split_nl e)
     (Split_nl (boxStyle (plain_backend sv sd tf) (JoinVertical (plain_backend sv sd tf) entries)))"
    by (simp add: plain_backend_def)
qed

lemma newline_space_not_in_box: "\<not> sublist [newline, CHR '' ''] (plain_boxStyle str)"
proof
  assume "sublist [newline, CHR '' ''] (plain_boxStyle str)"
  then obtain l where l: "l \<in> set (tl (Split_nl (plain_boxStyle str)))" "l \<noteq> []" "hd l = CHR '' ''"
    using line_after_newline[of "CHR '' ''" "plain_boxStyle str"] by (auto simp: newline_def)
  from plain_boxStyle_lines[of str] obtain w where
    "Split_nl (plain_boxStyle str)
     = (border_TopLeft @ concat (replicate w border_Horizontal) @ border_TopRight)
       # map (\<lambda>l. border_Vertical @ pad_right w ('' '' @ l @ '' '') @ border_Vertical) (Split_nl str)
       @ [border_BottomLeft @ concat (replicate w border_Horizontal) @ border_BottomRight]" by blast
  with l(1) have "hd l = CHR 0xE2"
    by (auto simp: border_Vertical_def border_BottomLeft_def)
  with l(3) show False by simp
qed

lemma newline_space_in_indented:
  "sublist [newline, CHR '' ''] (indentAllLines (plain_boxStyle str) childIndent)"
proof -
  from plain_boxStyle_lines[of str] obtain top l ls where
    s: "Split_nl (plain_boxStyle str) = top # l # ls"
    by (cases "Split_nl str") auto
  obtain r where r: "Join_nl ((childIndent @ l) # map (\<lambda>line. childIndent @ line) ls) = (childIndent @ l) @ r"
    using Join_nl_Cons by blast
  have "indentAllLines (plain_boxStyle str) childIndent
      = (childIndent @ top) @ [newline, CHR '' ''] @ ('' '' @ l @ r)"
    using r by (simp add: indentAllLines_def s childIndent_def)
  then show ?thesis by (simp only: sublist_appendI)
qed

lemma plain_block_not_substring:
  assumes "buildSpanBox (plain_backend sv sd tf) d1 child cm1 = Some childBox"
      and "buildSpanBox (plain_backend sv sd tf) d2 span cm2 = Some block"
  shows "\<not> sublist (indentAllLines childBox childIndent) block"
proof
  assume sub: "sublist (indentAllLines childBox childIndent) block"
  from buildSpanBox_is_box[OF assms(1)] obtain c1 where c1: "childBox = plain_boxStyle c1"
    by (auto simp: plain_backend_def)
  from buildSpanBox_is_box[OF assms(2)] obtain c2 where c2: "block = plain_boxStyle c2"
    by (auto simp: plain_backend_def)
  have "sublist [newline, CHR '' ''] (indentAllLines childBox childIndent)"
    unfolding c1 by (rule newline_space_in_indented)
  from this sub have "sublist [newline, CHR '' ''] block" by (rule sublist_order.order_trans)
  then show False unfolding c2 using newline_space_not_in_box by blast
qed











section \<open>Chains of the children map and the depth of the recursion\<close>

lemma is_chain_Cons:
  "is_chain cm (s # p) = (p = [] \<or> (hd p \<in> set (lookup cm (span_key s)) \<and> is_chain cm p))"
  by (cases p) auto

lemma buildSpanBox_None_iff:
  "(buildSpanBox be depth s cm = None) = (\<exists>p. length p = depth \<and> is_chain cm (s # p))"
proof (induction depth arbitrary: s)
  case 0
  then show ?case by simp
next
  case (Suc depth)
  have "(buildSpanBox be (Suc depth) s cm = None)
      = (children_loop (\<lambda>child. buildSpanBox be depth child cm) (lookup cm (span_key s))
           (attribute_loop be (Attributes s) (field_lines be s @ [labelStyle be ''Attributes:'']))
         = None)"
    by (simp add: Let_def split: option.splits)
  also have "\<dots> = (\<exists>c\<in>set (lookup cm (span_key s)). buildSpanBox be depth c cm = None)"
    by (rule children_loop_None)
  also have "\<dots> = (\<exists>c\<in>set (lookup cm (span_key s)). \<exists>p. length p = depth \<and> is_chain cm (c # p))"
    using Suc.IH by simp
  also have "\<dots> = (\<exists>p. length p = Suc depth \<and> is_chain cm (s # p))"
  proof
    assume "\<exists>c\<in>set (lookup cm (span_key s)). \<exists>p. length p = depth \<and> is_chain cm (c # p)"
    then obtain c p where "c \<in> set (lookup cm (span_key s))" "length p = depth" "is_chain cm (c # p)"
      by blast
    then have "length (c # p) = Suc depth \<and> is_chain cm (s # c # p)" by simp
    then show "\<exists>p. length p = Suc depth \<and> is_chain cm (s # p)" by blast
  next
    assume "\<exists>p. length p = Suc depth \<and> is_chain cm (s # p)"
    then obtain p where p: "length p = Suc depth" "is_chain cm (s # p)" by blast
    then obtain c q where "p = c # q" by (cases p) auto
    with p show "\<exists>c\<in>set (lookup cm (span_key s)). \<exists>p. length p = depth \<and> is_chain cm (c # p)"
      by auto
  qed
  finally show ?case .
qed

lemma bound_all:
  fixes Q :: "'a \<Rightarrow> nat \<Rightarrow> bool"
  assumes "\<And>c. c \<in> set cs \<Longrightarrow> \<exists>n. Q c n" and mono: "\<And>c n m. Q c n \<Longrightarrow> n \<le> m \<Longrightarrow> Q c m"
  shows "\<exists>N. \<forall>c\<in>set cs. Q c N"
  using assms(1)
proof (induction cs)
  case Nil
  then show ?case by simp
next
  case (Cons c cs)
  then obtain N where N: "\<forall>c\<in>set cs. Q c N" by auto
  from Cons.prems obtain n where n: "Q c n" by auto
  have "\<forall>x\<in>set (c # cs). Q x (max n N)"
    using N n mono by (auto intro: mono[of _ _ "max n N"])
  then show ?case by blast
qed

lemma chains_bounded:
  assumes srt: "sort_Slice_contract srt" and ac: "acyclic (parent_edges spans)"
  shows "\<exists>n. \<forall>p. is_chain (children_of srt pids spans) (s # p) \<longrightarrow> length p \<le> n"
proof -
  let ?cm = "children_of srt pids spans"
  have "finite (parent_edges spans)" by (simp add: parent_edges_def)
  then have wf: "wf ((parent_edges spans)\<inverse>)"
    using ac by (rule finite_acyclic_wf_converse)
  have "\<forall>s. span_key s = k \<longrightarrow> (\<exists>n. \<forall>p. is_chain ?cm (s # p) \<longrightarrow> length p \<le> n)" for k
  proof (induction k rule: wf_induct_rule[OF wf])
    case (1 k)
    show ?case
    proof (intro allI impI)
      fix s assume k: "span_key s = k"
      have "\<exists>n. \<forall>p. is_chain ?cm (c # p) \<longrightarrow> length p \<le> n"
        if "c \<in> set (lookup ?cm (span_key s))" for c
      proof -
        from children_of_member[OF srt that]
        have "c \<in> set spans" "has_parent c" "parent_key c = k" using k by auto
        then have "(k, span_key c) \<in> parent_edges spans"
          by (force simp: parent_edges_def)
        then have "(span_key c, k) \<in> (parent_edges spans)\<inverse>" by simp
        from 1[OF this] show ?thesis by blast
      qed
      then have "\<exists>N. \<forall>c\<in>set (lookup ?cm (span_key s)). \<forall>p. is_chain ?cm (c # p) \<longrightarrow> length p \<le> N"
        by (intro bound_all) (auto intro: order_trans)
      then obtain N where N: "\<forall>c\<in>set (lookup ?cm (span_key s)). \<forall>p. is_chain ?cm (c # p) \<longrightarrow> length p \<le> N"
        by blast
      have "\<forall>p. is_chain ?cm (s # p) \<longrightarrow> length p \<le> Suc N"
      proof (intro allI impI)
        fix p assume c: "is_chain ?cm (s # p)"
        show "length p \<le> Suc N"
        proof (cases p)
          case Nil
          then show ?thesis by simp
        next
          case (Cons c q)
          with c have "c \<in> set (lookup ?cm (span_key s))" "is_chain ?cm (c # q)" by auto
          with N have "length q \<le> N" by blast
          with Cons show ?thesis by simp
        qed
      qed
      then show "\<exists>n. \<forall>p. is_chain ?cm (s # p) \<longrightarrow> length p \<le> n" by blast
    qed
  qed
  then show ?thesis by blast
qed

lemma is_chain_take: "is_chain cm xs \<Longrightarrow> is_chain cm (take k xs)"
proof (induction cm xs arbitrary: k rule: is_chain.induct)
  case (1 cm)
  then show ?case by simp
next
  case (2 cm s)
  then show ?case by (cases k) auto
next
  case (3 cm s t rest)
  show ?case
  proof (cases k)
    case 0
    then show ?thesis by simp
  next
    case (Suc j)
    from 3 have "is_chain cm (take j (t # rest))" by simp
    with 3(2) Suc show ?thesis by (cases j) auto
  qed
qed

lemma chain_shorter:
  assumes "is_chain cm (s # p)" and "k \<le> length p"
  shows "\<exists>q. is_chain cm (s # q) \<and> length q = k"
proof -
  have "is_chain cm (take (Suc k) (s # p))" using assms(1) by (rule is_chain_take)
  then have "is_chain cm (s # take k p)" by simp
  moreover have "length (take k p) = k" using assms(2) by simp
  ultimately show ?thesis by blast
qed

lemma depth_threshold:
  assumes "\<forall>p. is_chain cm (s # p) \<longrightarrow> length p \<le> n"
  shows "\<exists>d. (\<forall>depth. (buildSpanBox be depth s cm \<noteq> None) = (d \<le> depth))
           \<and> (\<exists>p. is_chain cm (s # p) \<and> length (s # p) = d)
           \<and> (\<forall>p. is_chain cm (s # p) \<longrightarrow> length (s # p) \<le> d)"
proof -
  let ?P = "\<lambda>m. \<exists>p. is_chain cm (s # p) \<and> length p = m"
  have "?P 0" by simp
  moreover have "\<forall>y. ?P y \<longrightarrow> y \<le> n" using assms by blast
  ultimately obtain m where m: "?P m" "\<forall>y. ?P y \<longrightarrow> y \<le> m"
    using Nat.ex_has_greatest_nat[of ?P 0 n] by blast
  have "(buildSpanBox be depth s cm \<noteq> None) = (Suc m \<le> depth)" for depth
  proof -
    have "(buildSpanBox be depth s cm = None) = ?P depth"
      by (auto simp: buildSpanBox_None_iff)
    also have "\<dots> = (depth \<le> m)"
    proof
      assume "?P depth" with m(2) show "depth \<le> m" by blast
    next
      assume "depth \<le> m"
      from m(1) obtain p where "is_chain cm (s # p)" "length p = m" by blast
      with \<open>depth \<le> m\<close> chain_shorter[of cm s p depth] show "?P depth" by auto
    qed
    finally show ?thesis by auto
  qed
  moreover from m(1) have "\<exists>p. is_chain cm (s # p) \<and> length (s # p) = Suc m" by auto
  moreover from m(2) have "\<forall>p. is_chain cm (s # p) \<longrightarrow> length (s # p) \<le> Suc m" by auto
  ultimately show ?thesis by blast
qed

lemma buildSpanBox_agree:
  assumes eq: "\<forall>r\<in>R. lookup cm (span_key r) = lookup cm' (span_key r)"
      and closed: "\<forall>r\<in>R. set (lookup cm (span_key r)) \<subseteq> R"
  shows "s \<in> R \<Longrightarrow> buildSpanBox be depth s cm = buildSpanBox be depth s cm'"
proof (induction depth arbitrary: s)
  case 0
  then show ?case by simp
next
  case (Suc depth)
  have same: "lookup cm' (span_key s) = lookup cm (span_key s)" using eq Suc.prems by simp
  have "\<forall>c\<in>set (lookup cm (span_key s)).
          buildSpanBox be depth c cm = buildSpanBox be depth c cm'"
    using closed Suc.prems Suc.IH by blast
  then have "children_loop (\<lambda>child. buildSpanBox be depth child cm) (lookup cm (span_key s)) ls
           = children_loop (\<lambda>child. buildSpanBox be depth child cm') (lookup cm (span_key s)) ls"
    for ls by (rule children_loop_cong)
  then show ?case by (simp add: same Let_def)
qed

lemma filter_removeAll_other: "\<not> P x \<Longrightarrow> filter P (removeAll x xs) = filter P xs"
  by (induction xs) auto

section \<open>The claims\<close>

subsection \<open>Order of siblings and of roots\<close>

text \<open>
  What the contract of \<open>sort.Slice\<close> gives: the root list and every child list that the
  loop over the map has sorted are in non-decreasing order of start time.
\<close>

lemma lists_sorted_by_start:
  assumes "sort_Slice_contract srt" and "range_order pids (group_children spans Map.empty)"
  shows "sorted_wrt (\<lambda>x y. StartTime x \<le> StartTime y) (roots_of srt spans)
       \<and> sorted_wrt (\<lambda>x y. StartTime x \<le> StartTime y) (lookup (children_of srt pids spans) k)"
proof -
  have le: "(\<lambda>x y. \<not> byStartTime y x) = (\<lambda>x y. StartTime x \<le> StartTime y)"
    by (auto simp: byStartTime_def Time_Before_def fun_eq_iff)
  have "sorted_wrt (\<lambda>x y. \<not> byStartTime y x) (srt byStartTime xs)" for xs
    using assms(1) by (simp add: sort_Slice_contract_def)
  then show ?thesis
    unfolding le by (simp add: roots_of_def children_of_lookup[OF assms])
qed

text \<open>
  Claim C1. The root list and every sibling list are in non-decreasing order of start
  time, and spans with equal start times keep their input order. The source sorts both
  "for stable ordering", as its comments say, and calls \<open>sort.Slice\<close>, which is not a
  stable sort: the second half of the claim fails on the code. A list of at most twelve
  spans is sorted by insertion and keeps its ties in input order (lemma
  \<open>sort_Slice_short_stable\<close>); a longer one need not. On the thirteen roots \<open>a\<close>
  to \<open>m\<close>, of which \<open>a\<close> to \<open>l\<close> start at the same instant and \<open>m\<close> earlier, the partition
  step exchanges the pivot \<open>g\<close> with \<open>a\<close> and then \<open>b\<close> with \<open>m\<close>: the roots are printed in
  the order \<open>m g c d e f a h i j k l b\<close>.
\<close>

theorem sort_Slice_reorders_ties:
  "map Name tied_roots
     = [''a'', ''b'', ''c'', ''d'', ''e'', ''f'', ''g'', ''h'', ''i'', ''j'', ''k'', ''l'', ''m'']
   \<and> map StartTime tied_roots = [1, 1, 1, 1, 1, 1, 1, 1, 1, 1, 1, 1, 0]
   \<and> map Name (roots_of sort_Slice tied_roots)
     = [''m'', ''g'', ''c'', ''d'', ''e'', ''f'', ''a'', ''h'', ''i'', ''j'', ''k'', ''l'', ''b'']"
  by code_simp

subsection \<open>Roots and children\<close>

text \<open>
  Claim C2. A span is in the root list exactly when it is in the input and its parent
  identifier is not valid (with the number of times it occurs in the input); the grouping
  loop appends every span with a valid parent identifier to the list under that
  identifier, in input order, and sorting keeps the elements of each list.
\<close>

theorem roots_and_children:
  assumes "sort_Slice_contract srt"
  shows "(s \<in> set (roots_of srt spans)) = (s \<in> set spans \<and> \<not> has_parent s)
       \<and> mset (roots_of srt spans) = mset (filter (\<lambda>s. \<not> has_parent s) spans)
       \<and> lookup (group_children spans Map.empty) k
           = filter (\<lambda>s. has_parent s \<and> parent_key s = k) spans
       \<and> mset (lookup (children_of srt pids spans) k)
           = mset (filter (\<lambda>s. has_parent s \<and> parent_key s = k) spans)"
proof -
  have r: "mset (roots_of srt spans) = mset (filter (\<lambda>s. \<not> has_parent s) spans)"
    using assms by (simp add: roots_of_def contract_mset find_roots_filter)
  have "set (roots_of srt spans) = set (filter (\<lambda>s. \<not> has_parent s) spans)"
    using r by (metis set_mset_mset)
  then have m: "(s \<in> set (roots_of srt spans)) = (s \<in> set spans \<and> \<not> has_parent s)"
    by auto
  have g: "lookup (group_children spans Map.empty) k
           = filter (\<lambda>s. has_parent s \<and> parent_key s = k) spans"
    by (simp add: group_children_lookup) (simp add: lookup_def)
  have c: "mset (lookup (children_of srt pids spans) k)
           = mset (filter (\<lambda>s. has_parent s \<and> parent_key s = k) spans)"
    using assms by (simp add: children_of_def sort_children_mset g)
  show ?thesis using r m g c by blast
qed

theorem roots_and_children_witness:
  "(childSpan1 \<in> set (roots_of insertion_sort test_spans))
     = (childSpan1 \<in> set test_spans \<and> \<not> has_parent childSpan1)
   \<and> mset (roots_of insertion_sort test_spans) = mset (filter (\<lambda>s. \<not> has_parent s) test_spans)
   \<and> lookup (group_children test_spans Map.empty) (span_key rootSpan)
       = filter (\<lambda>s. has_parent s \<and> parent_key s = span_key rootSpan) test_spans
   \<and> mset (lookup (children_of insertion_sort [span_key childSpan2, span_key rootSpan] test_spans)
         (span_key rootSpan))
       = mset (filter (\<lambda>s. has_parent s \<and> parent_key s = span_key rootSpan) test_spans)"
  by (rule roots_and_children[OF insertion_sort_contract])

text \<open>
  Claim C10. When every span of a non-empty input has a valid parent identifier, the
  root list is empty and \<open>PrintSpanTree\<close> returns with the writer untouched, whatever the
  bound on the depth of the recursion: no block is built.
\<close>

theorem no_roots_no_output:
  assumes "sort_Slice_contract srt" and "spans \<noteq> []" and "\<forall>s\<in>set spans. has_parent s"
  shows "roots_of srt spans = [] \<and> PrintSpanTree srt be pids depth w spans = Some w"
proof -
  have "filter (\<lambda>s. \<not> has_parent s) spans = []"
    using assms(3) by (simp add: filter_empty_conv)
  then have "roots_of srt spans = []"
    using assms(1) by (simp add: roots_of_def find_roots_filter contract_Nil)
  then show ?thesis by (simp add: PrintSpanTree_def)
qed

theorem no_roots_no_output_witness:
  "roots_of insertion_sort [cycleSpanA, cycleSpanB] = []
   \<and> PrintSpanTree insertion_sort example_backend [] 0 [] [cycleSpanA, cycleSpanB] = Some []"
proof -
  have 1: "[cycleSpanA, cycleSpanB] \<noteq> []" by simp
  have "has_parent cycleSpanA" "has_parent cycleSpanB" by code_simp+
  then have 2: "\<forall>s\<in>set [cycleSpanA, cycleSpanB]. has_parent s" by simp
  show ?thesis by (rule no_roots_no_output[OF insertion_sort_contract 1 2])
qed

subsection \<open>Spans outside the forest\<close>

text \<open>
  Claim C3. A span with a valid parent identifier that is not the identifier of any span
  reachable from a root contributes nothing to the output: it is not among the reachable
  spans, and \<open>PrintSpanTree\<close> returns the same result, written text and all, on the input
  without it.
\<close>

theorem orphan_not_rendered:
  assumes srt: "sort_Slice_contract srt"
      and r1: "range_order pids (group_children spans Map.empty)"
      and r2: "range_order pids' (group_children (removeAll x spans) Map.empty)"
      and hp: "has_parent x"
      and orphan: "\<forall>s\<in>reachable spans. span_key s \<noteq> parent_key x"
  shows "x \<notin> reachable spans
       \<and> PrintSpanTree srt be pids depth w spans
           = PrintSpanTree srt be pids' depth w (removeAll x spans)"
proof
  show nr: "x \<notin> reachable spans"
  proof
    assume "x \<in> reachable spans"
    then show False using hp orphan by cases auto
  qed
  let ?cm = "children_of srt pids spans"
  let ?cm' = "children_of srt pids' (removeAll x spans)"
  have roots: "roots_of srt (removeAll x spans) = roots_of srt spans"
    using hp by (simp add: roots_of_def find_roots_filter filter_removeAll_other)
  have eq: "\<forall>r\<in>reachable spans. lookup ?cm (span_key r) = lookup ?cm' (span_key r)"
    using orphan by (auto simp: children_of_lookup[OF srt r1] children_of_lookup[OF srt r2]
        filter_removeAll_other)
  have closed: "\<forall>r\<in>reachable spans. set (lookup ?cm (span_key r)) \<subseteq> reachable spans"
    using children_of_member[OF srt] by (blast intro: reachable.child)
  have "set (roots_of srt spans) \<subseteq> reachable spans"
    using srt by (auto simp: roots_of_def find_roots_filter contract_set intro: reachable.root)
  then have "\<forall>r\<in>set (roots_of srt spans).
          buildSpanBox be depth r ?cm = buildSpanBox be depth r ?cm'"
    using buildSpanBox_agree[OF eq closed] by blast
  then have pr: "print_roots be depth (roots_of srt spans) ?cm w
           = print_roots be depth (roots_of srt spans) ?cm' w"
    by (rule print_roots_cong)
  show "PrintSpanTree srt be pids depth w spans
      = PrintSpanTree srt be pids' depth w (removeAll x spans)"
  proof (cases "removeAll x spans = []")
    case True
    then have "roots_of srt spans = []"
      using roots srt by (simp add: roots_of_def contract_Nil)
    then show ?thesis using True by (simp add: PrintSpanTree_def)
  next
    case False
    then have "spans \<noteq> []" by auto
    then show ?thesis using False pr roots by (simp add: PrintSpanTree_def)
  qed
qed

theorem orphan_not_rendered_witness:
  "orphanSpan \<notin> reachable orphan_spans
   \<and> PrintSpanTree insertion_sort example_backend
        [parent_key orphanSpan, span_key rootSpan] 2 [] orphan_spans
     = PrintSpanTree insertion_sort example_backend
        [span_key rootSpan] 2 [] (removeAll orphanSpan orphan_spans)"
proof -
  have d1: "dom (group_children orphan_spans Map.empty) = {parent_key orphanSpan, span_key rootSpan}"
    by (subst group_children_dom)
       (simp add: orphan_spans_def keys parents has_parent_orphanSpan parent_key_orphanSpan)
  have 1: "range_order [parent_key orphanSpan, span_key rootSpan]
             (group_children orphan_spans Map.empty)"
    by (simp add: range_order_def d1) (simp add: keys parent_key_orphanSpan)
  have r: "removeAll orphanSpan orphan_spans = [rootSpan, childSpan1]"
    using orphan_distinct by (auto simp: orphan_spans_def)
  have d2: "dom (group_children (removeAll orphanSpan orphan_spans) Map.empty) = {span_key rootSpan}"
    by (subst group_children_dom) (simp add: r keys parents)
  have 2: "range_order [span_key rootSpan]
             (group_children (removeAll orphanSpan orphan_spans) Map.empty)"
    by (simp add: range_order_def d2)
  have 3: "\<forall>s\<in>reachable orphan_spans. span_key s \<noteq> parent_key orphanSpan"
  proof
    fix s assume "s \<in> reachable orphan_spans"
    then have "s = rootSpan \<or> s = childSpan1" by (rule reachable_orphan_spans)
    then show "span_key s \<noteq> parent_key orphanSpan"
      by (auto simp: keys parent_key_orphanSpan)
  qed
  show ?thesis
    by (rule orphan_not_rendered[OF insertion_sort_contract 1 2 has_parent_orphanSpan 3])
qed

subsection \<open>The block of a span\<close>

text \<open>
  Claim C4, as amended. The block of a child, with the indent in front of every one of
  its lines, is one of the entries that the backend joins and frames into the block of
  the parent; with a backend that keeps lines, every line of the indented child block
  is found, in order, inside a line of the parent's block.
\<close>

theorem child_block_is_entry:
  assumes "buildSpanBox be (Suc depth) span cm = Some block"
      and "child \<in> set (lookup cm (span_key span))"
  shows "\<exists>childBox before after.
           buildSpanBox be depth child cm = Some childBox
         \<and> block = boxStyle be (JoinVertical be
                      (before @ [indentAllLines childBox childIndent] @ after))
         \<and> (keeps_lines be \<longrightarrow>
              lines_within (Split_nl (indentAllLines childBox childIndent)) (Split_nl block))"
proof -
  from assms(1) obtain ls where
    ls: "children_loop (\<lambda>child. buildSpanBox be depth child cm) (lookup cm (span_key span))
           (attribute_loop be (Attributes span) (field_lines be span @ [labelStyle be ''Attributes:'']))
         = Some ls"
    and b: "block = boxStyle be (JoinVertical be ls)"
    by (auto simp: Let_def split: option.splits)
  from children_loop_member[OF ls assms(2)] obtain childBox before after where
    c: "buildSpanBox be depth child cm = Some childBox"
    and e: "ls = before @ [indentAllLines childBox childIndent] @ after" by blast
  have "indentAllLines childBox childIndent \<in> set ls" using e by simp
  then have "keeps_lines be \<longrightarrow>
      lines_within (Split_nl (indentAllLines childBox childIndent)) (Split_nl block)"
    using b by (auto simp: keeps_lines_def)
  with c e b show ?thesis by blast
qed

theorem child_block_is_entry_witness:
  "keeps_lines example_backend
   \<and> (\<exists>childBox before after.
           buildSpanBox example_backend (Suc 0) childSpan1 two_spans_map = Some childBox
         \<and> the (buildSpanBox example_backend (Suc (Suc 0)) rootSpan two_spans_map)
             = boxStyle example_backend (JoinVertical example_backend
                      (before @ [indentAllLines childBox childIndent] @ after))
         \<and> (keeps_lines example_backend \<longrightarrow>
              lines_within (Split_nl (indentAllLines childBox childIndent))
                (Split_nl (the (buildSpanBox example_backend (Suc (Suc 0)) rootSpan two_spans_map)))))"
proof -
  have 1: "buildSpanBox example_backend (Suc (Suc 0)) rootSpan two_spans_map
         = Some (the (buildSpanBox example_backend (Suc (Suc 0)) rootSpan two_spans_map))"
    using two_spans_root_box by simp
  have 2: "childSpan1 \<in> set (lookup two_spans_map (span_key rootSpan))"
    by (simp add: lookup_two_spans_root)
  have 3: "keeps_lines example_backend"
    unfolding example_backend_def by (rule keeps_lines_plain)
  show ?thesis by (rule conjI[OF 3 child_block_is_entry[OF 1 2]])
qed

text \<open>
  Claim C4 as stated fails: the box puts its border in front of every line, so the
  indented block of the child, which runs over several lines, is not a contiguous part
  of the parent's block.
\<close>

theorem child_block_not_substring:
  "childSpan1 \<in> set (lookup two_spans_map (span_key rootSpan))
   \<and> buildSpanBox example_backend (Suc (Suc 0)) rootSpan two_spans_map \<noteq> None
   \<and> buildSpanBox example_backend (Suc 0) childSpan1 two_spans_map \<noteq> None
   \<and> \<not> sublist
         (indentAllLines (the (buildSpanBox example_backend (Suc 0) childSpan1 two_spans_map)) childIndent)
         (the (buildSpanBox example_backend (Suc (Suc 0)) rootSpan two_spans_map))"
proof -
  obtain cb where cb: "buildSpanBox example_backend (Suc 0) childSpan1 two_spans_map = Some cb"
    using two_spans_child_box by blast
  obtain pb where pb: "buildSpanBox example_backend (Suc (Suc 0)) rootSpan two_spans_map = Some pb"
    using two_spans_root_box by blast
  have "\<not> sublist (indentAllLines cb childIndent) pb"
    using cb pb unfolding example_backend_def by (rule plain_block_not_substring)
  then show ?thesis using cb pb by (simp add: lookup_two_spans_root)
qed





subsection \<open>Determinism\<close>

text \<open>
  Claim C6. The order in which the loop over the children map visits its keys is the
  only choice the run time makes, and it has no influence: for any two enumerations of
  the keys \<open>PrintSpanTree\<close> returns the same result.
\<close>

theorem map_order_irrelevant:
  assumes "range_order pids1 (group_children spans Map.empty)"
      and "range_order pids2 (group_children spans Map.empty)"
  shows "PrintSpanTree srt be pids1 depth w spans = PrintSpanTree srt be pids2 depth w spans"
proof -
  have "sort_children srt pids1 (group_children spans Map.empty)
      = sort_children srt pids2 (group_children spans Map.empty)"
    using assms by (simp add: range_order_def sort_children_distinct)
  then show ?thesis by (simp add: PrintSpanTree_def children_of_def)
qed

theorem map_order_irrelevant_witness:
  "PrintSpanTree insertion_sort example_backend [span_key rootSpan, span_key childSpan2] 3 [] test_spans
   = PrintSpanTree insertion_sort example_backend [span_key childSpan2, span_key rootSpan] 3 [] test_spans"
proof -
  have 1: "range_order [span_key rootSpan, span_key childSpan2] (group_children test_spans Map.empty)"
    by (simp add: range_order_def test_dom) (simp add: keys)
  have 2: "range_order [span_key childSpan2, span_key rootSpan] (group_children test_spans Map.empty)"
    by (simp add: range_order_def test_dom) (auto simp: keys)
  show ?thesis by (rule map_order_irrelevant[OF 1 2])
qed

subsection \<open>Termination\<close>

text \<open>
  Claim C7. When the graph of parent identifiers is acyclic, \<open>buildSpanBox\<close> returns on
  every span and \<open>PrintSpanTree\<close> returns. The least bound on the depth of the recursion
  under which they return is the depth of the tree: the number of spans on a longest
  chain of the children map from the span, and for \<open>PrintSpanTree\<close> from a root (zero
  without roots).
\<close>

theorem acyclic_terminates:
  assumes srt: "sort_Slice_contract srt" and ac: "acyclic (parent_edges spans)"
  shows "(\<exists>d. (\<forall>depth. (buildSpanBox be depth s (children_of srt pids spans) \<noteq> None) = (d \<le> depth))
            \<and> (\<exists>p. is_chain (children_of srt pids spans) (s # p) \<and> length (s # p) = d)
            \<and> (\<forall>p. is_chain (children_of srt pids spans) (s # p) \<longrightarrow> length (s # p) \<le> d))
       \<and> (\<exists>d. (\<forall>depth. (PrintSpanTree srt be pids depth w spans \<noteq> None) = (d \<le> depth))
            \<and> (\<forall>r\<in>set (roots_of srt spans). \<forall>p.
                  is_chain (children_of srt pids spans) (r # p) \<longrightarrow> length (r # p) \<le> d)
            \<and> (d = 0 \<or> (\<exists>r\<in>set (roots_of srt spans). \<exists>p.
                  is_chain (children_of srt pids spans) (r # p) \<and> length (r # p) = d)))"
proof
  let ?cm = "children_of srt pids spans"
  let ?roots = "roots_of srt spans"
  have bounded: "\<exists>n. \<forall>p. is_chain ?cm (x # p) \<longrightarrow> length p \<le> n" for x
    using chains_bounded[OF srt ac] .
  from bounded[of s] obtain n where "\<forall>p. is_chain ?cm (s # p) \<longrightarrow> length p \<le> n" by blast
  then show "\<exists>d. (\<forall>depth. (buildSpanBox be depth s ?cm \<noteq> None) = (d \<le> depth))
            \<and> (\<exists>p. is_chain ?cm (s # p) \<and> length (s # p) = d)
            \<and> (\<forall>p. is_chain ?cm (s # p) \<longrightarrow> length (s # p) \<le> d)"
    by (rule depth_threshold)
  show "\<exists>d. (\<forall>depth. (PrintSpanTree srt be pids depth w spans \<noteq> None) = (d \<le> depth))
            \<and> (\<forall>r\<in>set ?roots. \<forall>p. is_chain ?cm (r # p) \<longrightarrow> length (r # p) \<le> d)
            \<and> (d = 0 \<or> (\<exists>r\<in>set ?roots. \<exists>p. is_chain ?cm (r # p) \<and> length (r # p) = d))"
  proof (cases "?roots = []")
    case True
    then have "\<forall>depth. (PrintSpanTree srt be pids depth w spans \<noteq> None) = (0 \<le> depth)"
      using PrintSpanTree_None[OF srt] by simp
    with True show ?thesis by auto
  next
    case False
    let ?P = "\<lambda>m. \<exists>r\<in>set ?roots. \<exists>p. is_chain ?cm (r # p) \<and> length (r # p) = m"
    have "\<exists>N. \<forall>r\<in>set ?roots. \<forall>p. is_chain ?cm (r # p) \<longrightarrow> length p \<le> N"
      by (intro bound_all bounded) (auto intro: order_trans)
    then obtain N where N: "\<forall>r\<in>set ?roots. \<forall>p. is_chain ?cm (r # p) \<longrightarrow> length p \<le> N"
      by blast
    from False obtain r0 where r0: "r0 \<in> set ?roots" by (cases ?roots) auto
    then have "?P 1" by (intro bexI[of _ r0] exI[of _ "[]"]) auto
    moreover have "\<forall>y. ?P y \<longrightarrow> y \<le> Suc N" using N by auto
    ultimately obtain d where d: "?P d" "\<forall>y. ?P y \<longrightarrow> y \<le> d"
      using Nat.ex_has_greatest_nat[of ?P 1 "Suc N"] by blast
    have "(PrintSpanTree srt be pids depth w spans \<noteq> None) = (d \<le> depth)" for depth
    proof -
      have "(PrintSpanTree srt be pids depth w spans = None)
          = (\<exists>r\<in>set ?roots. \<exists>p. length p = depth \<and> is_chain ?cm (r # p))"
        by (simp add: PrintSpanTree_None[OF srt] buildSpanBox_None_iff)
      also have "\<dots> = ?P (Suc depth)" by auto
      also have "\<dots> = (Suc depth \<le> d)"
      proof
        assume "?P (Suc depth)" with d(2) show "Suc depth \<le> d" by blast
      next
        assume le: "Suc depth \<le> d"
        from d(1) obtain r p where rp: "r \<in> set ?roots" "is_chain ?cm (r # p)" "length (r # p) = d"
          by blast
        with le have "depth \<le> length p" by simp
        from chain_shorter[OF rp(2) this] rp(1) show "?P (Suc depth)" by auto
      qed
      finally show ?thesis by auto
    qed
    moreover have "\<forall>r\<in>set ?roots. \<forall>p. is_chain ?cm (r # p) \<longrightarrow> length (r # p) \<le> d"
      using d(2) by blast
    ultimately show ?thesis using d(1) by blast
  qed
qed

theorem acyclic_terminates_witness:
  "(\<exists>d. (\<forall>depth. (buildSpanBox example_backend depth rootSpan
                      (children_of insertion_sort [span_key rootSpan, span_key childSpan2] test_spans) \<noteq> None)
                   = (d \<le> depth))
        \<and> (\<exists>p. is_chain (children_of insertion_sort [span_key rootSpan, span_key childSpan2] test_spans)
                  (rootSpan # p) \<and> length (rootSpan # p) = d)
        \<and> (\<forall>p. is_chain (children_of insertion_sort [span_key rootSpan, span_key childSpan2] test_spans)
                  (rootSpan # p) \<longrightarrow> length (rootSpan # p) \<le> d))
   \<and> (\<exists>d. (\<forall>depth. (PrintSpanTree insertion_sort example_backend
                        [span_key rootSpan, span_key childSpan2] depth [] test_spans \<noteq> None)
                   = (d \<le> depth))
        \<and> (\<forall>r\<in>set (roots_of insertion_sort test_spans). \<forall>p.
              is_chain (children_of insertion_sort [span_key rootSpan, span_key childSpan2] test_spans)
                (r # p) \<longrightarrow> length (r # p) \<le> d)
        \<and> (d = 0 \<or> (\<exists>r\<in>set (roots_of insertion_sort test_spans). \<exists>p.
              is_chain (children_of insertion_sort [span_key rootSpan, span_key childSpan2] test_spans)
                (r # p) \<and> length (r # p) = d)))"
  by (rule acyclic_terminates[OF insertion_sort_contract test_spans_acyclic])

subsection \<open>The attribute classifier\<close>

text \<open>
  Claim C8. The default classifier emphasises an attribute exactly when its key is one
  of \<open>error\<close>, \<open>error_code\<close>, \<open>rpc.connect_rpc.error_code\<close>, or its value is a string
  equal to \<open>error\<close> or \<open>not_found\<close>.
\<close>

theorem isErrorAttribute_iff:
  "isErrorAttribute key val =
     (key \<in> {''error'', ''error_code'', ''rpc.connect_rpc.error_code''}
      \<or> (\<exists>strVal. val = STRING strVal \<and> strVal \<in> {''error'', ''not_found''}))"
  by (cases val) auto

subsection \<open>The empty input\<close>

text \<open>
  Claim C9. On the empty span list \<open>PrintSpanTree\<close> returns with the writer untouched:
  nothing is written, not even a line break.
\<close>

theorem PrintSpanTree_empty:
  "PrintSpanTree srt be pids depth w [] = Some w"
  by (simp add: PrintSpanTree_def)

end
